theory Spec2Isabelle
  imports Main "HOL-Library.Word"
begin

section \<open>Constants of the export package\<close>

text \<open>The \<^verbatim>\<open>const\<close> block of \<^verbatim>\<open>export/export.go\<close>. Durations are
  nanoseconds, as \<^verbatim>\<open>time.Duration\<close> counts them.\<close>

definition shardCount :: nat where
  "shardCount = 512"

definition shardBufferSize :: nat where
  "shardBufferSize = 2048"

definition batchSizeMax :: nat where
  "batchSizeMax = 200"

definition second :: nat where
  "second = 1000000000"

definition batchDelayMax :: nat where
  "batchDelayMax = 5 * second"

section \<open>Data\<close>

text \<open>A sample is a pointer to a \<^verbatim>\<open>monitoring_pb.TimeSeries\<close>; the pipeline never
  looks inside it, so it is an opaque identifier here.\<close>

type_synonym TimeSeries = nat

record queueEntry =
  hash :: "64 word"
  sample :: TimeSeries

text \<open>A buffered Go channel of queue entries: its buffered values, oldest first, and
  the capacity it was made with. Channels are reference values: they live in a store
  (\<open>chans\<close> below) and a shard holds an index into it. \<open>None\<close> is the nil channel of
  the zero value \<^verbatim>\<open>shard{}\<close>.\<close>

record chan =
  buf :: "queueEntry list"
  cap :: nat

record shard =
  queue :: "nat option"
  pending :: bool

text \<open>A \<^verbatim>\<open>time.Timer\<close>: whether it is running (armed and not yet expired), whether
  its channel \<^verbatim>\<open>C\<close> holds an expiry that was not received yet, and the duration it
  was last armed with.\<close>

record timer =
  running :: bool
  tick :: bool
  duration :: nat

record ExporterOpts =
  ProjectID :: string
  TestEndpoint :: string
  CredentialsFile :: string

text \<open>The \<^verbatim>\<open>Exporter\<close> struct with the channel store its shards point into.
  \<open>nextc\<close> is a channel of capacity 1 carrying no data: it is full or empty.\<close>

record Exporter =
  opts :: ExporterOpts
  shards :: "shard list"
  chans :: "chan list"
  nextc :: bool

text \<open>The state of the process while \<^verbatim>\<open>Run\<close> is in its loop: the exporter, the
  local variables of \<^verbatim>\<open>Run\<close> (\<open>batch\<close>, \<open>seen\<close>, \<open>closers\<close>, \<open>shardOffset\<close>,
  \<open>timer\<close>), the package-level counters, the send goroutines that were started and
  have not run yet (\<open>inflight\<close>: the batch and the closers each one was given), the
  requests the backend received (\<open>calls\<close>) and the error log. The counters only grow by
  whole amounts; they are natural numbers here.

  \<open>cells\<close> holds the loop-local variables \<^verbatim>\<open>shard\<close> of the drain loop that a release
  closure captured. \<^verbatim>\<open>shard := e.shards[index]\<close> declares a new struct variable in every
  iteration and copies the slice element into it; the closure
  \<^verbatim>\<open>func() { shard.pending = false }\<close> refers to that variable, which is kept alive
  for it. A closure is the index of its variable in \<open>cells\<close>.

  The Go \<open>batch\<close> is a slice of samples. Here every sample stays paired with the hash
  it was queued under, so that the fingerprints in a batch can be named;
  \<open>map sample\<close> gives the Go slice.\<close>

record world = Exporter +
  cells :: "shard list"
  batch :: "queueEntry list"
  seen :: "64 word set"
  closers :: "nat list"
  shardOffset :: nat
  timer :: timer
  inflight :: "(queueEntry list \<times> nat list) list"
  calls :: "(string \<times> queueEntry list) list"
  errlog :: "string list"
  samplesExported :: nat
  samplesDropped :: nat
  samplesSent :: nat
  sendIterations :: nat
  shardProcess :: nat
  shardProcessPending :: nat

datatype panic = DivideByZero | AlreadyRegistered string

section \<open>Shards\<close>

text \<open>\<^verbatim>\<open>newShard\<close> makes a channel: it is allocated at the end of the store.\<close>

definition newShard :: "nat \<Rightarrow> chan list \<Rightarrow> shard \<times> chan list" where
  "newShard queueSize store =
     (\<lparr>queue = Some (length store), pending = False\<rparr>, store @ [\<lparr>buf = [], cap = queueSize\<rparr>])"

text \<open>\<^verbatim>\<open>shard.get\<close>: a receive under \<^verbatim>\<open>select\<close> with a \<^verbatim>\<open>default\<close>. A nil channel
  and an empty one are never ready, and the channels are never closed.\<close>

definition shard_get :: "shard \<Rightarrow> world \<Rightarrow> queueEntry option \<times> world" where
  "shard_get s w =
     (case queue s of
        None \<Rightarrow> (None, w)
      | Some q \<Rightarrow>
          if q < length (chans w) then
            (case buf (chans w ! q) of
               [] \<Rightarrow> (None, w)
             | e # es \<Rightarrow> (Some e, w\<lparr>chans := (chans w)[q := (chans w ! q)\<lparr>buf := es\<rparr>]\<rparr>))
          else (None, w))"

text \<open>\<^verbatim>\<open>shard.enqueue\<close>: count the attempt, then send under \<^verbatim>\<open>select\<close> with a
  \<^verbatim>\<open>default\<close>. The send is ready when the buffer holds fewer values than its
  capacity; otherwise (or on a nil channel) the default branch counts a drop.\<close>

definition shard_enqueue :: "shard \<Rightarrow> 64 word \<Rightarrow> TimeSeries \<Rightarrow> world \<Rightarrow> world" where
  "shard_enqueue s h p w =
     (let w1 = w\<lparr>samplesExported := samplesExported w + 1\<rparr>;
          e = \<lparr>hash = h, sample = p\<rparr>
      in case queue s of
           None \<Rightarrow> w1\<lparr>samplesDropped := samplesDropped w1 + 1\<rparr>
         | Some q \<Rightarrow>
             if q < length (chans w1) \<and> length (buf (chans w1 ! q)) < cap (chans w1 ! q)
             then w1\<lparr>chans := (chans w1)[q := (chans w1 ! q)\<lparr>buf := buf (chans w1 ! q) @ [e]\<rparr>]\<rparr>
             else w1\<lparr>samplesDropped := samplesDropped w1 + 1\<rparr>)"

section \<open>The enqueue path\<close>

text \<open>\<^verbatim>\<open>Exporter.enqueue\<close>: \<^verbatim>\<open>hash % uint64(len(e.shards))\<close> is unsigned 64-bit
  arithmetic and panics on an empty slice.\<close>

definition Exporter_enqueue :: "64 word \<Rightarrow> TimeSeries \<Rightarrow> world \<Rightarrow> panic + world" where
  "Exporter_enqueue h p w =
     (if length (shards w) = 0 then Inl DivideByZero
      else let idx = unat (h mod word_of_nat (length (shards w)))
           in Inr (shard_enqueue (shards w ! idx) h p w))"

text \<open>\<^verbatim>\<open>triggerNext\<close>: a send on \<open>nextc\<close> that does nothing when the slot is taken.\<close>

definition triggerNext :: "world \<Rightarrow> world" where
  "triggerNext w = (if nextc w then w else w\<lparr>nextc := True\<rparr>)"

section \<open>The flush timer\<close>

definition NewTimer :: "nat \<Rightarrow> timer" where
  "NewTimer d = \<lparr>running = True, tick = False, duration = d\<rparr>"

text \<open>\<^verbatim>\<open>timer.Stop\<close> reports whether the call stopped a running timer.\<close>

definition timer_Stop :: "timer \<Rightarrow> bool \<times> timer" where
  "timer_Stop t = (running t, t\<lparr>running := False\<rparr>)"

definition timer_Reset :: "nat \<Rightarrow> timer \<Rightarrow> timer" where
  "timer_Reset d t = t\<lparr>running := True, duration := d\<rparr>"

text \<open>The closure \<^verbatim>\<open>stopTimer\<close> of \<^verbatim>\<open>Run\<close>: when the timer had already expired,
  drain its channel without blocking.\<close>

definition stopTimer :: "timer \<Rightarrow> timer" where
  "stopTimer t = (case timer_Stop t of (stopped, t') \<Rightarrow> if \<not> stopped then t'\<lparr>tick := False\<rparr> else t')"

text \<open>The runtime expiring a running timer: it puts the expiry on the channel.\<close>

definition expire :: "timer \<Rightarrow> timer" where
  "expire t = (if running t then t\<lparr>running := False, tick := True\<rparr> else t)"

section \<open>Sending\<close>

text \<open>The closure \<^verbatim>\<open>send\<close> of \<^verbatim>\<open>Run\<close>: start a goroutine on the current batch and
  closers, rearm the timer, clear \<open>seen\<close>, and start a new batch and a new closers
  list.\<close>

definition send :: "world \<Rightarrow> world" where
  "send w = w\<lparr>inflight := inflight w @ [(batch w, closers w)],
              timer := timer_Reset batchDelayMax (stopTimer (timer w)),
              seen := {},
              closers := [],
              batch := []\<rparr>"

text \<open>\<^verbatim>\<open>Exporter.send\<close>: one \<^verbatim>\<open>CreateTimeSeries\<close> request. Whether it fails is the
  backend's choice, a parameter of the goroutine below.\<close>

definition Exporter_send :: "queueEntry list \<Rightarrow> world \<Rightarrow> world" where
  "Exporter_send b w = w\<lparr>calls := calls w @ [(''projects/'' @ ProjectID (opts w), b)]\<rparr>"

text \<open>A release closure run: it clears \<open>pending\<close> of the variable it captured.\<close>

definition release :: "nat \<Rightarrow> world \<Rightarrow> world" where
  "release c w = w\<lparr>cells := (cells w)[c := (cells w ! c)\<lparr>pending := False\<rparr>]\<rparr>"

text \<open>The body of the goroutine that \<^verbatim>\<open>send\<close> starts, given the error (if any) the
  backend answers with.\<close>

definition send_task :: "string option \<Rightarrow> queueEntry list \<times> nat list \<Rightarrow> world \<Rightarrow> world" where
  "send_task err g w =
     (case g of (b, cl) \<Rightarrow>
        let w1 = Exporter_send b w;
            w2 = (case err of None \<Rightarrow> w1 | Some m \<Rightarrow> w1\<lparr>errlog := errlog w1 @ [m]\<rparr>);
            w3 = w2\<lparr>samplesSent := samplesSent w2 + length b\<rparr>
        in fold release cl w3)"

section \<open>The drain loop of \<^verbatim>\<open>Run\<close>\<close>

text \<open>The two statements that close an iteration of the inner loop: record the hash in
  \<open>seen\<close> and append to the batch.\<close>

definition add_entry :: "queueEntry \<Rightarrow> world \<Rightarrow> world" where
  "add_entry e w = w\<lparr>seen := insert (hash e) (seen w), batch := batch w @ [e]\<rparr>"

text \<open>The inner loop \<^verbatim>\<open>for len(batch) < cap(batch)\<close> on the local copy \<open>s\<close> of a
  shard. Every batch is made with capacity \<open>batchSizeMax\<close> and is appended to only
  below that length, so \<^verbatim>\<open>cap(batch)\<close> is \<open>batchSizeMax\<close> throughout.\<close>

function fill :: "shard \<Rightarrow> world \<Rightarrow> world" where
  "fill s w =
     (if length (batch w) < batchSizeMax then
        (case shard_get s w of
           (None, w') \<Rightarrow> w'
         | (Some e, w') \<Rightarrow>
             fill s (add_entry e (if hash e \<in> seen w' then send w' else w')))
      else w)"
  by pat_completeness auto
termination
proof (relation "measure (\<lambda>(s, w). case queue s of None \<Rightarrow> 0 | Some q \<Rightarrow> length (buf (chans w ! q)))")
  show "wf (measure (\<lambda>(s, w). case queue s of None \<Rightarrow> 0 | Some q \<Rightarrow> length (buf (chans w ! q))))"
    by simp
next
  fix s :: shard and w :: world and x y e
  assume "(x, y) = shard_get s w" and "x = Some e"
  then show "((s, add_entry e (if hash e \<in> seen y then send y else y)), (s, w))
      \<in> measure (\<lambda>(s, w). case queue s of None \<Rightarrow> 0 | Some q \<Rightarrow> length (buf (chans w ! q)))"
    by (auto simp: shard_get_def add_entry_def send_def split: option.splits if_splits list.splits)
qed

declare fill.simps [simp del]

text \<open>The statement \<^verbatim>\<open>if len(batch) > startLen { ... }\<close> that follows the inner loop.
  \<open>shard\<close> is the loop-local variable, a copy of \<^verbatim>\<open>e.shards[index]\<close>:
  \<^verbatim>\<open>shard.pending = true\<close> writes to the copy, and the copy enters \<open>cells\<close> when the
  release closure captures it. Nothing is written to \<^verbatim>\<open>e.shards\<close>.\<close>

definition mark_pending :: "nat \<Rightarrow> shard \<Rightarrow> world \<Rightarrow> world" where
  "mark_pending startLen shard w =
     (if length (batch w) > startLen
      then w\<lparr>cells := cells w @ [shard\<lparr>pending := True\<rparr>],
             closers := closers w @ [length (cells w)]\<rparr>
      else w)"

text \<open>The statement \<^verbatim>\<open>if len(batch) == cap(batch) { send() }\<close> that ends the body.\<close>

definition send_if_full :: "world \<Rightarrow> world" where
  "send_if_full w = (if length (batch w) = batchSizeMax then send w else w)"

text \<open>The body of the outer loop for loop counter \<open>i\<close>.\<close>

definition visit :: "nat \<Rightarrow> world \<Rightarrow> world" where
  "visit i w =
     (let w1 = w\<lparr>shardProcess := shardProcess w + 1\<rparr>;
          index = (i + shardOffset w1) mod length (shards w1);
          shard = shards w1 ! index
      in if pending shard then w1\<lparr>shardProcessPending := shardProcessPending w1 + 1\<rparr>
         else
           let startLen = length (batch w1)
           in send_if_full (mark_pending startLen shard (fill shard w1)))"

text \<open>The outer loop \<^verbatim>\<open>for ; i < len(e.shards); i++\<close>, from loop counter \<open>i\<close> on. Its
  body has a \<^verbatim>\<open>continue\<close> and no \<^verbatim>\<open>break\<close>. The result is the final \<open>i\<close> and the
  state.\<close>

function drain :: "nat \<Rightarrow> world \<Rightarrow> nat \<times> world" where
  "drain i w = (if i < length (shards w) then drain (Suc i) (visit i w) else (i, w))"
  by pat_completeness auto
termination
proof (relation "measure (\<lambda>(i, w). length (shards w) - i)")
  show "wf (measure (\<lambda>(i, w). length (shards w) - i))"
    by simp
next
  fix i :: nat and w :: world
  assume i: "i < length (shards w)"
  have kept: "shards (fill s v) = shards v" for s v
  proof (induction s v rule: fill.induct)
    case (1 s v)
    show ?case
    proof (cases "length (batch v) < batchSizeMax")
      case False
      then show ?thesis by (simp add: fill.simps)
    next
      case True
      obtain x y where g: "shard_get s v = (x, y)"
        by (cases "shard_get s v")
      then have y: "shards y = shards v"
        by (auto simp: shard_get_def split: option.splits if_splits list.splits)
      show ?thesis
      proof (cases x)
        case None
        with True g y show ?thesis by (simp add: fill.simps)
      next
        case (Some e)
        have "shards (fill s v) = shards (fill s (add_entry e (if hash e \<in> seen y then send y else y)))"
          using True g Some by (subst fill.simps) simp
        also have "\<dots> = shards (add_entry e (if hash e \<in> seen y then send y else y))"
          using "1.IH" [OF True g [symmetric] Some] .
        also have "\<dots> = shards v"
          using y by (simp add: add_entry_def send_def)
        finally show ?thesis .
      qed
    qed
  qed
  have "shards (visit i w) = shards w"
    by (simp add: visit_def Let_def kept send_def mark_pending_def send_if_full_def)
  with i show "((Suc i, visit i w), (i, w)) \<in> measure (\<lambda>(i, w). length (shards w) - i)"
    by simp
qed

declare drain.simps [simp del]

text \<open>The case \<^verbatim>\<open><-e.nextc\<close> of the \<^verbatim>\<open>select\<close>, after the receive. The final
  \<^verbatim>\<open>% len(e.shards)\<close> panics on an empty slice.\<close>

definition wake :: "world \<Rightarrow> panic + world" where
  "wake w =
     (let w1 = w\<lparr>sendIterations := sendIterations w + 1\<rparr>
      in case drain 0 w1 of (i, w2) \<Rightarrow>
           let w3 = (if i < length (shards w2) then triggerNext w2 else w2)
           in if length (shards w3) = 0 then Inl DivideByZero
              else Inr (w3\<lparr>shardOffset := (shardOffset w3 + i) mod length (shards w3)\<rparr>))"


text \<open>The case \<^verbatim>\<open><-timer.C\<close> of the \<^verbatim>\<open>select\<close>, after the receive.\<close>

definition timer_case :: "world \<Rightarrow> world" where
  "timer_case w =
     (if length (batch w) > 0 then send w
      else w\<lparr>timer := timer_Reset batchDelayMax (timer w)\<rparr>)"

section \<open>The process as a sequence of events\<close>

text \<open>What can happen while \<^verbatim>\<open>Run\<close> loops:
  \<^item> \<open>Enqueue h p\<close>: \<^verbatim>\<open>Export\<close> calls \<^verbatim>\<open>e.enqueue(h, p)\<close> for a point its builder emitted;
  \<^item> \<open>TriggerNext\<close>: \<^verbatim>\<open>Export\<close> signals at its end;
  \<^item> \<open>Wake\<close>: the \<^verbatim>\<open>select\<close> receives from \<open>nextc\<close> and runs a drain pass;
  \<^item> \<open>TimerExpire\<close>: the runtime expires the running timer;
  \<^item> \<open>TimerFlush\<close>: the \<^verbatim>\<open>select\<close> receives from \<^verbatim>\<open>timer.C\<close>;
  \<^item> \<open>Complete k err\<close>: the \<open>k\<close>-th goroutine of \<open>inflight\<close> runs, the backend
    answering with \<open>err\<close>. Goroutines are scheduled in no particular order, and
    what one does (the request, the log line, \<open>samplesSent\<close>, its closers) touches
    nothing the drainer reads, so it runs in one piece.
  An event that is not enabled (a receive on an empty channel, a goroutine that does not
  exist) leaves the state as it is. An \<^verbatim>\<open>Export\<close> that runs while a drain pass is under
  way is ordered before or after the pass. Cancellation ends the loop and is not an event;
  neither is the construction of the client that precedes the loop.\<close>

datatype event =
    Enqueue "64 word" TimeSeries
  | TriggerNext
  | Wake
  | TimerExpire
  | TimerFlush
  | Complete nat "string option"

fun step :: "event \<Rightarrow> world \<Rightarrow> panic + world" where
  "step (Enqueue h p) w = Exporter_enqueue h p w"
| "step TriggerNext w = Inr (triggerNext w)"
| "step Wake w = (if nextc w then wake (w\<lparr>nextc := False\<rparr>) else Inr w)"
| "step TimerExpire w = Inr (w\<lparr>timer := expire (timer w)\<rparr>)"
| "step TimerFlush w =
     Inr (if tick (timer w) then timer_case (w\<lparr>timer := (timer w)\<lparr>tick := False\<rparr>\<rparr>) else w)"
| "step (Complete k err) w =
     Inr (if k < length (inflight w)
          then send_task err (inflight w ! k)
                 (w\<lparr>inflight := take k (inflight w) @ drop (Suc k) (inflight w)\<rparr>)
          else w)"

fun run :: "event list \<Rightarrow> world \<Rightarrow> panic + world" where
  "run [] w = Inr w"
| "run (ev # evs) w = (case step ev w of Inl p \<Rightarrow> Inl p | Inr w' \<Rightarrow> run evs w')"

section \<open>Construction\<close>

text \<open>A metrics registry is the list of the metric names registered with it.
  \<^verbatim>\<open>MustRegister\<close> of the Prometheus client registers its arguments in order and panics
  on one that is registered already.\<close>

type_synonym registry = "string list"

definition counterNames :: "string list" where
  "counterNames =
     [''gcm_collector_samples_exported_total'',
      ''gcm_collector_samples_dropped_total'',
      ''gcm_collector_samples_sent_total'',
      ''gcm_collector_send_iterations_total'',
      ''gcm_collector_shard_process_total'',
      ''gcm_collector_shard_process_pending_total'']"

fun MustRegister :: "string list \<Rightarrow> registry \<Rightarrow> panic + registry" where
  "MustRegister [] r = Inr r"
| "MustRegister (c # cs) r =
     (if c \<in> set r then Inl (AlreadyRegistered c) else MustRegister cs (r @ [c]))"

text \<open>The loop \<^verbatim>\<open>for i := range e.shards { e.shards[i] = newShard(shardBufferSize) }\<close>.\<close>

definition init_shards :: "shard list \<Rightarrow> chan list \<Rightarrow> shard list \<times> chan list" where
  "init_shards ss store =
     fold (\<lambda>i (ss, store). case newShard shardBufferSize store of (s, store') \<Rightarrow> (ss[i := s], store'))
       [0..<length ss] (ss, store)"

text \<open>\<^verbatim>\<open>New\<close>, on the registry it is given (\<open>None\<close> is a nil registerer). The result is
  the registry afterwards and what \<^verbatim>\<open>New\<close> returns: the error, or the exporter.\<close>

definition New :: "registry option \<Rightarrow> ExporterOpts \<Rightarrow> panic + (registry option \<times> (string + Exporter))" where
  "New reg os =
     (case (case reg of
              None \<Rightarrow> Inr None
            | Some r \<Rightarrow> (case MustRegister counterNames r of Inl p \<Rightarrow> Inl p | Inr r' \<Rightarrow> Inr (Some r')))
      of Inl p \<Rightarrow> Inl p
       | Inr reg' \<Rightarrow>
           if ProjectID os = [] then Inr (reg', Inl ''GCP project ID missing'')
           else (case init_shards (replicate shardCount \<lparr>queue = None, pending = False\<rparr>) [] of
                   (ss, store) \<Rightarrow>
                     Inr (reg', Inr \<lparr>opts = os, shards = ss, chans = store, nextc = False\<rparr>)))"

text \<open>The state when \<^verbatim>\<open>Run\<close> enters its loop on an exporter: an empty batch, an empty
  \<open>seen\<close>, no closers, offset 0, the timer armed, the counters at zero.\<close>

definition Run_init :: "Exporter \<Rightarrow> world" where
  "Run_init e =
     \<lparr>opts = opts e, shards = shards e, chans = chans e, nextc = nextc e,
      cells = [], batch = [], seen = {}, closers = [], shardOffset = 0,
      timer = NewTimer batchDelayMax, inflight = [], calls = [], errlog = [],
      samplesExported = 0, samplesDropped = 0, samplesSent = 0,
      sendIterations = 0, shardProcess = 0, shardProcessPending = 0\<rparr>"

section \<open>Invariants of the running process\<close>

text \<open>A batch handed to a send goroutine is well formed: it is not empty, no two of its
  points have the same hash, and it holds at most \<open>batchSizeMax\<close> points.\<close>

definition batch_ok :: "queueEntry list \<Rightarrow> bool" where
  "batch_ok b \<longleftrightarrow> b \<noteq> [] \<and> distinct (map hash b) \<and> length b \<le> batchSizeMax"

text \<open>The batch under construction and \<open>seen\<close> agree, and everything that was
  dispatched is well formed.\<close>

definition batch_inv :: "world \<Rightarrow> bool" where
  "batch_inv w \<longleftrightarrow>
     seen w = hash ` set (batch w) \<and> distinct (map hash (batch w)) \<and>
     length (batch w) \<le> batchSizeMax \<and>
     (\<forall>g \<in> set (inflight w). batch_ok (fst g)) \<and>
     (\<forall>c \<in> set (calls w). batch_ok (snd c))"

text \<open>The exporter is as \<^verbatim>\<open>New\<close> built it: shard \<open>i\<close> owns channel \<open>i\<close> and has
  \<open>pending\<close> false, every channel has capacity \<open>shardBufferSize\<close> and holds no more,
  and the shard offset is 0.\<close>

definition wired :: "world \<Rightarrow> bool" where
  "wired w \<longleftrightarrow>
     shards w = map (\<lambda>i. \<lparr>queue = Some i, pending = False\<rparr>) [0..<shardCount] \<and>
     length (chans w) = shardCount \<and>
     (\<forall>c \<in> set (chans w). cap c = shardBufferSize \<and> length (buf c) \<le> shardBufferSize) \<and>
     shardOffset w = 0"

text \<open>A running timer has nothing on its channel, and it was armed with
  \<open>batchDelayMax\<close>.\<close>

definition timer_ok :: "world \<Rightarrow> bool" where
  "timer_ok w \<longleftrightarrow> (running (timer w) \<longrightarrow> \<not> tick (timer w)) \<and> duration (timer w) = batchDelayMax"

text \<open>Every closer, of the list under construction and of the goroutines in flight,
  refers to a captured variable that exists.\<close>

definition closers_ok :: "world \<Rightarrow> bool" where
  "closers_ok w \<longleftrightarrow>
     (\<forall>c \<in> set (closers w). c < length (cells w)) \<and>
     (\<forall>g \<in> set (inflight w). \<forall>c \<in> set (snd g). c < length (cells w))"

text \<open>\<open>settled\<close> holds between two iterations of the outer loop: the batch is below
  its capacity. \<open>stable\<close> collects what holds between two events.\<close>

definition settled :: "world \<Rightarrow> bool" where
  "settled w \<longleftrightarrow> batch_inv w \<and> length (batch w) < batchSizeMax"

definition mid :: "world \<Rightarrow> bool" where
  "mid w \<longleftrightarrow> wired w \<and> timer_ok w \<and> closers_ok w"

definition stable :: "world \<Rightarrow> bool" where
  "stable w \<longleftrightarrow> settled w \<and> mid w"

text \<open>What a part of a drain pass that started in \<open>w0\<close> did to the timer by the time
  it is in \<open>v\<close>: the goroutines started since are appended to \<open>inflight\<close>; if there
  are none the timer is as it was, otherwise it is freshly armed.\<close>

definition sent_since :: "world \<Rightarrow> world \<Rightarrow> bool" where
  "sent_since w0 v \<longleftrightarrow>
     (running (timer v) \<longrightarrow> \<not> tick (timer v)) \<and>
     (\<exists>xs. inflight v = inflight w0 @ xs \<and>
        timer v = (if xs = [] then timer w0
                   else \<lparr>running = True, tick = False, duration = batchDelayMax\<rparr>))"

section \<open>Example states\<close>

text \<open>The exporter that \<^verbatim>\<open>New\<close> returns for project \<^verbatim>\<open>p\<close>, and the store in
  which every queue is empty.\<close>

definition opts_p :: ExporterOpts where
  "opts_p = \<lparr>ProjectID = ''p'', TestEndpoint = [], CredentialsFile = []\<rparr>"

definition exporter_p :: Exporter where
  "exporter_p = \<lparr>opts = opts_p,
     shards = map (\<lambda>i. \<lparr>queue = Some i, pending = False\<rparr>) [0..<shardCount],
     chans = replicate shardCount \<lparr>buf = [], cap = shardBufferSize\<rparr>, nextc = False\<rparr>"

definition idle_chans :: "chan list" where
  "idle_chans = replicate shardCount \<lparr>buf = [], cap = shardBufferSize\<rparr>"

text \<open>Points: \<open>pt k\<close> has hash 7 for every \<open>k\<close> (one series, shard 7);
  \<open>pt0 k\<close> has hash \<open>512 * k\<close> (different series, all of shard 0).\<close>

definition pt :: "nat \<Rightarrow> queueEntry" where
  "pt k = \<lparr>hash = 7, sample = k\<rparr>"

definition pt0 :: "nat \<Rightarrow> queueEntry" where
  "pt0 k = \<lparr>hash = word_of_nat (512 * k), sample = k\<rparr>"

text \<open>One point of series 7 is exported (\<open>queued1\<close>), a drain pass takes it into the
  batch (\<open>drained1\<close>), the timer expires (\<open>expired1\<close>) and the batch is flushed
  (\<open>flushed1\<close>); the goroutine runs and the backend fails (\<open>released1\<close>). Or, with the
  goroutine still in flight, a second point of the series is exported (\<open>queued2\<close>),
  drained (\<open>drained2\<close>) and flushed (\<open>flushed2\<close>).\<close>

definition queued1 :: world where
  "queued1 = (Run_init exporter_p)
     \<lparr>chans := idle_chans[7 := \<lparr>buf = [pt 1], cap = shardBufferSize\<rparr>],
      nextc := True, samplesExported := 1\<rparr>"

definition drained1 :: world where
  "drained1 = (Run_init exporter_p)
     \<lparr>chans := idle_chans, samplesExported := 1, sendIterations := 1, shardProcess := 512,
      cells := [\<lparr>queue = Some 7, pending = True\<rparr>], batch := [pt 1], seen := {7}, closers := [0]\<rparr>"

definition expired1 :: world where
  "expired1 = drained1\<lparr>timer := \<lparr>running = False, tick = True, duration = batchDelayMax\<rparr>\<rparr>"

definition flushed1 :: world where
  "flushed1 = drained1\<lparr>batch := [], seen := {}, closers := [], inflight := [([pt 1], [0])]\<rparr>"

definition released1 :: world where
  "released1 = flushed1\<lparr>inflight := [], calls := [(''projects/p'', [pt 1])],
      errlog := [''unavailable''], samplesSent := 1,
      cells := [\<lparr>queue = Some 7, pending = False\<rparr>]\<rparr>"

definition queued2 :: world where
  "queued2 = flushed1
     \<lparr>chans := idle_chans[7 := \<lparr>buf = [pt 2], cap = shardBufferSize\<rparr>],
      nextc := True, samplesExported := 2\<rparr>"

definition drained2 :: world where
  "drained2 = flushed1
     \<lparr>samplesExported := 2, sendIterations := 2, shardProcess := 1024,
      cells := [\<lparr>queue = Some 7, pending = True\<rparr>, \<lparr>queue = Some 7, pending = True\<rparr>],
      batch := [pt 2], seen := {7}, closers := [1]\<rparr>"

definition flushed2 :: world where
  "flushed2 = drained2\<lparr>batch := [], seen := {}, closers := [],
      inflight := [([pt 1], [0]), ([pt 2], [1])]\<rparr>"

text \<open>Three points of series 7 are exported before the drainer wakes (\<open>queued3\<close>);
  one drain pass sends the first two as duplicates (\<open>drained3\<close>); the second goroutine
  runs (\<open>overtaken3\<close>), then the first (\<open>delivered3\<close>).\<close>

definition queued3 :: world where
  "queued3 = (Run_init exporter_p)
     \<lparr>chans := idle_chans[7 := \<lparr>buf = [pt 1, pt 2, pt 3], cap = shardBufferSize\<rparr>],
      nextc := True, samplesExported := 3\<rparr>"

definition drained3 :: world where
  "drained3 = (Run_init exporter_p)
     \<lparr>chans := idle_chans, samplesExported := 3, sendIterations := 1, shardProcess := 512,
      cells := [\<lparr>queue = Some 7, pending = True\<rparr>], batch := [pt 3], seen := {7}, closers := [0],
      inflight := [([pt 1], []), ([pt 2], [])]\<rparr>"

definition overtaken3 :: world where
  "overtaken3 = drained3\<lparr>inflight := [([pt 1], [])], calls := [(''projects/p'', [pt 2])],
      samplesSent := 1\<rparr>"

definition delivered3 :: world where
  "delivered3 = drained3\<lparr>inflight := [],
      calls := [(''projects/p'', [pt 2]), (''projects/p'', [pt 1])], samplesSent := 2\<rparr>"

text \<open>201 points of different series, all of shard 0, are exported (\<open>queued201\<close>); one
  drain pass fills a batch, sends it and leaves the last point queued (\<open>capped\<close>).\<close>

definition queued201 :: world where
  "queued201 = (Run_init exporter_p)
     \<lparr>chans := idle_chans[0 := \<lparr>buf = map pt0 [0..<201], cap = shardBufferSize\<rparr>],
      nextc := True, samplesExported := 201\<rparr>"

definition capped :: world where
  "capped = (Run_init exporter_p)
     \<lparr>chans := idle_chans[0 := \<lparr>buf = [pt0 200], cap = shardBufferSize\<rparr>],
      samplesExported := 201, sendIterations := 1, shardProcess := 512,
      cells := [\<lparr>queue = Some 0, pending = True\<rparr>],
      inflight := [(map pt0 [0..<200], [0])]\<rparr>"

text \<open>The queue of shard 7 is full (\<open>full7\<close>); the timer expired on an empty batch
  (\<open>expired0\<close>).\<close>

definition full7 :: world where
  "full7 = (Run_init exporter_p)
     \<lparr>chans := idle_chans[7 := \<lparr>buf = replicate 2048 (pt 1), cap = shardBufferSize\<rparr>],
      samplesExported := 2048\<rparr>"

definition expired0 :: world where
  "expired0 = (Run_init exporter_p)\<lparr>timer := \<lparr>running = False, tick = True, duration = batchDelayMax\<rparr>\<rparr>"

section \<open>Proof rules for the two loops\<close>

lemma shard_get_None: "shard_get s w = (None, w') \<Longrightarrow> w' = w"
  by (auto simp: shard_get_def split: option.splits if_splits list.splits)

lemma shard_get_Some:
  assumes "shard_get s w = (Some e, w')"
  obtains q es where "queue s = Some q" "q < length (chans w)" "buf (chans w ! q) = e # es"
    "w' = w\<lparr>chans := (chans w)[q := (chans w ! q)\<lparr>buf := es\<rparr>]\<rparr>"
  using assms by (auto simp: shard_get_def split: option.splits if_splits list.splits)

lemma fill_unfold_stop: "\<not> length (batch w) < batchSizeMax \<Longrightarrow> fill s w = w"
  by (simp add: fill.simps)

lemma fill_unfold_empty: "shard_get s w = (None, w') \<Longrightarrow> fill s w = w"
  by (subst fill.simps) (auto dest: shard_get_None)

lemma fill_unfold_step:
  "length (batch w) < batchSizeMax \<Longrightarrow> shard_get s w = (Some e, w') \<Longrightarrow>
   fill s w = fill s (add_entry e (if hash e \<in> seen w' then send w' else w'))"
  by (subst fill.simps) simp

lemma fill_preserves:
  assumes "P w"
    and step: "\<And>s w e w'. P w \<Longrightarrow> length (batch w) < batchSizeMax \<Longrightarrow> shard_get s w = (Some e, w') \<Longrightarrow>
        P (add_entry e (if hash e \<in> seen w' then send w' else w'))"
  shows "P (fill s w)"
  using assms(1)
proof (induction s w rule: fill.induct)
  case (1 s w)
  show ?case
  proof (cases "length (batch w) < batchSizeMax")
    case False
    with "1.prems" show ?thesis by (simp add: fill_unfold_stop)
  next
    case True
    show ?thesis
    proof (cases "shard_get s w")
      case (Pair x y)
      show ?thesis
      proof (cases x)
        case None
        with Pair "1.prems" show ?thesis by (simp add: fill_unfold_empty)
      next
        case (Some e)
        have sg: "shard_get s w = (Some e, y)"
          using Pair Some by simp
        have "P (add_entry e (if hash e \<in> seen y then send y else y))"
          by (rule step [OF "1.prems" True sg])
        then have "P (fill s (add_entry e (if hash e \<in> seen y then send y else y)))"
          using "1.IH" [OF True Pair [symmetric] Some] by simp
        then show ?thesis
          using fill_unfold_step [OF True] Pair Some by simp
      qed
    qed
  qed
qed

lemma shards_fill: "shards (fill s w) = shards w"
proof (rule fill_preserves [where P = "\<lambda>v. shards v = shards w"])
  fix s v e v'
  assume "shards v = shards w" "shard_get s v = (Some e, v')"
  then have "shards v' = shards w" by (auto elim!: shard_get_Some)
  then show "shards (add_entry e (if hash e \<in> seen v' then send v' else v')) = shards w"
    by (simp add: add_entry_def send_def)
qed simp

lemma shards_visit: "shards (visit i w) = shards w"
  by (simp add: visit_def Let_def shards_fill send_def mark_pending_def send_if_full_def)

lemma drain_preserves:
  assumes "P w"
    and step: "\<And>i w. P w \<Longrightarrow> i < length (shards w) \<Longrightarrow> P (visit i w)"
  shows "P (snd (drain i w))"
  using assms(1)
proof (induction i w rule: drain.induct)
  case (1 i w)
  show ?case
  proof (cases "i < length (shards w)")
    case True
    then have "drain i w = drain (Suc i) (visit i w)" by (subst drain.simps) simp
    moreover have "P (snd (drain (Suc i) (visit i w)))"
      using "1.IH" [OF True] step [OF "1.prems" True] by simp
    ultimately show ?thesis by simp
  next
    case False
    then have "drain i w = (i, w)" by (subst drain.simps) simp
    with "1.prems" show ?thesis by simp
  qed
qed

lemma drain_fst: "fst (drain i w) = max i (length (shards w))"
proof (induction i w rule: drain.induct)
  case (1 i w)
  show ?case
  proof (cases "i < length (shards w)")
    case True
    then have "drain i w = drain (Suc i) (visit i w)" by (subst drain.simps) simp
    with "1.IH" [OF True] True show ?thesis by (simp add: shards_visit max_def)
  next
    case False
    then have "drain i w = (i, w)" by (subst drain.simps) simp
    with False show ?thesis by (simp add: max_def)
  qed
qed

section \<open>Preservation of the invariants\<close>

lemma batch_inv_send:
  assumes "batch_inv w" "batch w \<noteq> []"
  shows "batch_inv (send w)"
  using assms by (auto simp: batch_inv_def batch_ok_def send_def)

lemma batch_inv_shard_get:
  "shard_get s w = (x, w') \<Longrightarrow> batch_inv w' = batch_inv w"
  by (auto simp: shard_get_def batch_inv_def split: option.splits if_splits list.splits)

lemma shard_get_batch: "shard_get s w = (x, w') \<Longrightarrow> batch w' = batch w \<and> seen w' = seen w"
  by (auto simp: shard_get_def split: option.splits if_splits list.splits)

lemma batch_inv_iter:
  assumes "batch_inv w" "length (batch w) < batchSizeMax"
  shows "batch_inv (add_entry e (if hash e \<in> seen w then send w else w))"
proof (cases "hash e \<in> seen w")
  case True
  then have "batch w \<noteq> []" using assms(1) by (auto simp: batch_inv_def)
  then have "batch_inv (send w)" using assms(1) by (rule batch_inv_send [rotated])
  then have "batch_inv (add_entry e (send w))"
    by (auto simp: batch_inv_def add_entry_def send_def batchSizeMax_def)
  with True show ?thesis by simp
next
  case False
  then have "batch_inv (add_entry e w)"
    using assms by (auto simp: batch_inv_def add_entry_def)
  with False show ?thesis by simp
qed

lemma batch_inv_fill: "batch_inv w \<Longrightarrow> batch_inv (fill s w)"
proof (rule fill_preserves [where P = batch_inv])
  fix s w e w'
  assume "batch_inv w" "length (batch w) < batchSizeMax" "shard_get s w = (Some e, w')"
  then have "batch_inv w'" "length (batch w') < batchSizeMax"
    using batch_inv_shard_get shard_get_batch by auto
  then show "batch_inv (add_entry e (if hash e \<in> seen w' then send w' else w'))"
    by (rule batch_inv_iter)
qed

lemma settled_visit:
  assumes "settled w"
  shows "settled (visit i w)"
proof -
  define w1 where "w1 = w\<lparr>shardProcess := shardProcess w + 1\<rparr>"
  define sh where "sh = shards w1 ! ((i + shardOffset w1) mod length (shards w1))"
  define w2 where "w2 = fill sh w1"
  define w3 where "w3 = mark_pending (length (batch w1)) sh w2"
  have v: "visit i w = (if pending sh then w1\<lparr>shardProcessPending := shardProcessPending w1 + 1\<rparr>
      else if length (batch w3) = batchSizeMax then send w3 else w3)"
    by (simp add: visit_def Let_def w1_def sh_def w2_def w3_def send_if_full_def)
  have s1: "settled w1" using assms by (simp add: settled_def batch_inv_def w1_def)
  then have "batch_inv w2" unfolding w2_def settled_def by (simp add: batch_inv_fill)
  then have b3: "batch_inv w3" by (simp add: w3_def batch_inv_def mark_pending_def)
  show ?thesis
  proof (cases "pending sh")
    case True
    with v s1 show ?thesis by (simp add: settled_def batch_inv_def)
  next
    case False
    show ?thesis
    proof (cases "length (batch w3) = batchSizeMax")
      case True
      then have "batch w3 \<noteq> []" by (auto simp: batchSizeMax_def)
      then have "batch_inv (send w3)" using b3 by (simp add: batch_inv_send)
      moreover have "length (batch (send w3)) < batchSizeMax" by (simp add: send_def batchSizeMax_def)
      ultimately show ?thesis using v False True by (simp add: settled_def)
    next
      case F: False
      with b3 have "length (batch w3) < batchSizeMax" by (simp add: batch_inv_def)
      with b3 v False F show ?thesis by (simp add: settled_def)
    qed
  qed
qed

lemma settled_drain: "settled w \<Longrightarrow> settled (snd (drain i w))"
  by (rule drain_preserves [where P = settled]) (simp_all add: settled_visit)

lemma mid_shard_get:
  assumes "shard_get s w = (x, w')" "mid w"
  shows "mid w'"
proof (cases x)
  case None
  with assms show ?thesis by (auto dest: shard_get_None)
next
  case (Some e)
  with assms(1) obtain q es where q: "q < length (chans w)" "buf (chans w ! q) = e # es"
    and w': "w' = w\<lparr>chans := (chans w)[q := (chans w ! q)\<lparr>buf := es\<rparr>]\<rparr>"
    by (auto elim: shard_get_Some)
  have "chans w ! q \<in> set (chans w)" using q by simp
  then have "cap (chans w ! q) = shardBufferSize" "length (buf (chans w ! q)) \<le> shardBufferSize"
    using assms(2) by (auto simp: mid_def wired_def)
  then have "\<forall>c \<in> set ((chans w)[q := (chans w ! q)\<lparr>buf := es\<rparr>]). cap c = shardBufferSize \<and> length (buf c) \<le> shardBufferSize"
    using assms(2) q by (auto simp: mid_def wired_def dest!: set_update_subset_insert [THEN subsetD])
  then show ?thesis
    using assms(2) by (simp add: w' mid_def wired_def timer_ok_def closers_ok_def)
qed

lemma mid_send: "mid w \<Longrightarrow> mid (send w)"
  by (auto simp: mid_def wired_def timer_ok_def closers_ok_def send_def stopTimer_def
      timer_Stop_def timer_Reset_def)

lemma mid_add_entry: "mid (add_entry e w) = mid w"
  by (simp add: mid_def wired_def timer_ok_def closers_ok_def add_entry_def)

lemma mid_fill: "mid w \<Longrightarrow> mid (fill s w)"
proof (rule fill_preserves [where P = mid])
  fix s w e w'
  assume "mid w" "shard_get s w = (Some e, w')"
  then have "mid w'" using mid_shard_get by blast
  then show "mid (add_entry e (if hash e \<in> seen w' then send w' else w'))"
    by (simp add: mid_add_entry mid_send)
qed

lemma mid_counters:
  "mid (w\<lparr>shardProcess := a\<rparr>) = mid w"
  "mid (w\<lparr>shardProcessPending := b\<rparr>) = mid w"
  "mid (w\<lparr>sendIterations := c\<rparr>) = mid w"
  "mid (w\<lparr>nextc := d\<rparr>) = mid w"
  by (simp_all add: mid_def wired_def timer_ok_def closers_ok_def)

lemma mid_mark:
  assumes "mid w"
  shows "mid (w\<lparr>cells := cells w @ [c], closers := closers w @ [length (cells w)]\<rparr>)"
  using assms by (auto simp: mid_def wired_def timer_ok_def closers_ok_def less_Suc_eq)

lemma mid_visit: "mid w \<Longrightarrow> mid (visit i w)"
  by (simp add: visit_def Let_def mark_pending_def send_if_full_def mid_counters mid_fill
      mid_mark mid_send)

lemma mid_drain: "mid w \<Longrightarrow> mid (snd (drain i w))"
  by (rule drain_preserves [where P = mid]) (simp_all add: mid_visit)

lemma settled_counters:
  "settled (w\<lparr>sendIterations := c\<rparr>) = settled w"
  "settled (w\<lparr>nextc := d\<rparr>) = settled w"
  "settled (w\<lparr>shardOffset := k\<rparr>) = settled w"
  "settled (w\<lparr>timer := t\<rparr>) = settled w"
  by (simp_all add: settled_def batch_inv_def)


lemma nextc_fill: "nextc (fill s w) = nextc w"
proof (rule fill_preserves [where P = "\<lambda>v. nextc v = nextc w"])
  fix s v e v'
  assume "nextc v = nextc w" "shard_get s v = (Some e, v')"
  then have "nextc v' = nextc w" by (auto elim!: shard_get_Some)
  then show "nextc (add_entry e (if hash e \<in> seen v' then send v' else v')) = nextc w"
    by (simp add: add_entry_def send_def)
qed simp

lemma nextc_visit: "nextc (visit i w) = nextc w"
  by (simp add: visit_def Let_def nextc_fill send_def mark_pending_def send_if_full_def)

lemma nextc_drain: "nextc (snd (drain i w)) = nextc w"
  by (rule drain_preserves [where P = "\<lambda>v. nextc v = nextc w"]) (simp_all add: nextc_visit)

lemma wake_stable:
  assumes "stable w"
  shows "\<exists>w'. wake w = Inr w' \<and> stable w' \<and> nextc w' = nextc w"
proof -
  define w1 where "w1 = w\<lparr>sendIterations := sendIterations w + 1\<rparr>"
  obtain i w2 where d: "drain 0 w1 = (i, w2)" by (cases "drain 0 w1")
  have s1: "stable w1" using assms by (simp add: stable_def w1_def settled_counters mid_counters)
  have s2: "stable w2"
    using settled_drain [of w1 0] mid_drain [of w1 0] s1 d by (simp add: stable_def)
  have len: "length (shards w2) = shardCount"
    using s2 by (simp add: stable_def mid_def wired_def)
  have "length (shards w1) = shardCount"
    using s1 by (simp add: stable_def mid_def wired_def)
  then have i: "i = shardCount"
    using drain_fst [of 0 w1] d by simp
  have off: "shardOffset w2 = 0" using s2 by (simp add: stable_def mid_def wired_def)
  have n: "nextc w2 = nextc w"
    using nextc_drain [of 0 w1] d by (simp add: w1_def)
  have w: "wake w = Inr (w2\<lparr>shardOffset := 0\<rparr>)"
    unfolding wake_def Let_def w1_def [symmetric] d
    using i len off by (auto simp: shardCount_def)
  have "w2\<lparr>shardOffset := 0\<rparr> = w2" using off by simp
  with w s2 n show ?thesis by simp
qed

lemma fold_release:
  "fold release cl w = w\<lparr>cells := fold (\<lambda>c cs. cs[c := (cs ! c)\<lparr>pending := False\<rparr>]) cl (cells w)\<rparr>"
  by (induction cl arbitrary: w) (simp_all add: release_def)

lemma length_fold_clear:
  "length (fold (\<lambda>c cs. cs[c := (cs ! c)\<lparr>pending := False\<rparr>]) cl cs) = length cs"
  by (induction cl arbitrary: cs) simp_all

lemma stable_send_task:
  assumes "stable w" "k < length (inflight w)"
  shows "stable (send_task err (inflight w ! k)
           (w\<lparr>inflight := take k (inflight w) @ drop (Suc k) (inflight w)\<rparr>))"
proof -
  obtain b cl where g: "inflight w ! k = (b, cl)" by (cases "inflight w ! k")
  have mem: "(b, cl) \<in> set (inflight w)" using assms(2) g by (metis nth_mem)
  have sub: "set (take k (inflight w) @ drop (Suc k) (inflight w)) \<subseteq> set (inflight w)"
    by (auto dest: in_set_takeD in_set_dropD)
  have ok: "batch_ok b" using assms(1) mem by (auto simp: stable_def settled_def batch_inv_def)
  show ?thesis
    using assms(1) sub ok
    by (auto simp: g send_task_def Exporter_send_def fold_release length_fold_clear Let_def
        stable_def settled_def batch_inv_def mid_def wired_def timer_ok_def closers_ok_def
        split: option.splits)
qed

lemma stable_shard_enqueue:
  assumes "stable w"
  shows "stable (shard_enqueue s h p w)"
proof (cases "queue s")
  case None
  with assms show ?thesis
    by (simp add: shard_enqueue_def Let_def stable_def settled_def batch_inv_def mid_def
        wired_def timer_ok_def closers_ok_def)
next
  case (Some q)
  show ?thesis
  proof (cases "q < length (chans w) \<and> length (buf (chans w ! q)) < cap (chans w ! q)")
    case False
    with Some assms show ?thesis
      by (auto simp: shard_enqueue_def Let_def stable_def settled_def batch_inv_def mid_def
        wired_def timer_ok_def closers_ok_def)
  next
    case True
    then have "chans w ! q \<in> set (chans w)" by simp
    then have c: "cap (chans w ! q) = shardBufferSize"
      using assms by (auto simp: stable_def mid_def wired_def)
    have "\<forall>c \<in> set ((chans w)[q := (chans w ! q)\<lparr>buf := buf (chans w ! q) @ [\<lparr>hash = h, sample = p\<rparr>]\<rparr>]).
        cap c = shardBufferSize \<and> length (buf c) \<le> shardBufferSize"
      using assms True c
      by (auto simp: stable_def mid_def wired_def dest!: set_update_subset_insert [THEN subsetD])
    with Some True assms show ?thesis
      by (simp add: shard_enqueue_def Let_def stable_def settled_def batch_inv_def mid_def
        wired_def timer_ok_def closers_ok_def)
  qed
qed

lemma stable_timer_case:
  assumes "stable w" "tick (timer w)"
  shows "stable (timer_case (w\<lparr>timer := (timer w)\<lparr>tick := False\<rparr>\<rparr>))"
proof -
  define v where "v = w\<lparr>timer := (timer w)\<lparr>tick := False\<rparr>\<rparr>"
  have v: "stable v"
    using assms by (simp add: v_def stable_def settled_def batch_inv_def mid_def
        wired_def timer_ok_def closers_ok_def)
  have nt: "\<not> tick (timer v)" by (simp add: v_def)
  show ?thesis
  proof (cases "batch v = []")
    case True
    with v nt show ?thesis
      unfolding v_def [symmetric]
      by (simp add: timer_case_def timer_Reset_def stable_def settled_def batch_inv_def mid_def
        wired_def timer_ok_def closers_ok_def)
  next
    case False
    then have "settled (send v)"
      using v by (simp add: stable_def settled_def batch_inv_send) (simp add: send_def batchSizeMax_def)
    with v False show ?thesis
      unfolding v_def [symmetric] by (simp add: timer_case_def stable_def mid_send)
  qed
qed

lemma step_stable:
  assumes "stable w"
  shows "\<exists>w'. step ev w = Inr w' \<and> stable w'"
proof (cases ev)
  case (Enqueue h p)
  have "length (shards w) = shardCount" using assms by (simp add: stable_def mid_def wired_def)
  then show ?thesis
    using assms Enqueue by (simp add: Exporter_enqueue_def Let_def stable_shard_enqueue shardCount_def)
next
  case TriggerNext
  with assms show ?thesis
    by (simp add: triggerNext_def stable_def settled_counters mid_counters)
next
  case Wake
  show ?thesis
  proof (cases "nextc w")
    case True
    have "stable (w\<lparr>nextc := False\<rparr>)"
      using assms by (simp add: stable_def settled_counters mid_counters)
    from wake_stable [OF this] Wake True show ?thesis by auto
  next
    case False
    with Wake assms show ?thesis by simp
  qed
next
  case TimerExpire
  with assms show ?thesis
    by (simp add: expire_def stable_def settled_counters mid_def wired_def timer_ok_def closers_ok_def)
next
  case TimerFlush
  with assms show ?thesis by (simp add: stable_timer_case)
next
  case (Complete k err)
  with assms show ?thesis by (simp add: stable_send_task)
qed

lemma run_stable:
  assumes "stable w"
  shows "\<exists>w'. run evs w = Inr w' \<and> stable w'"
  using assms
proof (induction evs arbitrary: w)
  case Nil
  then show ?case by simp
next
  case (Cons ev evs)
  from step_stable [OF Cons.prems] obtain v where v: "step ev w = Inr v" "stable v" by blast
  from Cons.IH [OF v(2)] v(1) show ?case by simp
qed

lemma init_shards_aux:
  "k \<le> length ss \<Longrightarrow>
   fold (\<lambda>i (ss, store). case newShard shardBufferSize store of (s, store') \<Rightarrow> (ss[i := s], store'))
       [0..<k] (ss, store) =
   (map (\<lambda>i. \<lparr>queue = Some (length store + i), pending = False\<rparr>) [0..<k] @ drop k ss,
    store @ replicate k \<lparr>buf = [], cap = shardBufferSize\<rparr>)"
proof (induction k)
  case 0
  then show ?case by simp
next
  case (Suc k)
  then have k: "k < length ss" by simp
  have upd: "(xs @ drop k ss)[k := s] = xs @ s # drop (Suc k) ss" if "length xs = k" for xs s
    using that k by (simp add: list_update_append upd_conv_take_nth_drop)
  show ?case
    using Suc k by (simp add: newShard_def upd replicate_append_same)
qed

lemma init_shards_replicate:
  "init_shards (replicate n z) [] =
   (map (\<lambda>i. \<lparr>queue = Some i, pending = False\<rparr>) [0..<n], replicate n \<lparr>buf = [], cap = shardBufferSize\<rparr>)"
  using init_shards_aux [of n "replicate n z" "[]"] by (simp add: init_shards_def)

lemma New_exporter:
  assumes "New reg os = Inr (reg', Inr e)"
  shows "e = \<lparr>opts = os, shards = map (\<lambda>i. \<lparr>queue = Some i, pending = False\<rparr>) [0..<shardCount],
              chans = replicate shardCount \<lparr>buf = [], cap = shardBufferSize\<rparr>, nextc = False\<rparr>"
    and "ProjectID os \<noteq> []"
  using assms by (auto simp: New_def init_shards_replicate split: option.splits sum.splits if_splits)

lemma stable_Run_init:
  assumes "New reg os = Inr (reg', Inr e)"
  shows "stable (Run_init e)"
  unfolding New_exporter(1) [OF assms]
  by (simp add: Run_init_def stable_def settled_def batch_inv_def mid_def wired_def timer_ok_def
      closers_ok_def NewTimer_def batchSizeMax_def)

section \<open>A drain pass over idle shards\<close>

text \<open>Rules that run a drain pass of an exporter as \<^verbatim>\<open>New\<close> built it without
  walking through every shard: a shard with an empty queue only counts a visit.\<close>

lemma visit_idle:
  assumes "shards w = map (\<lambda>i. \<lparr>queue = Some i, pending = False\<rparr>) [0..<shardCount]"
    and "shardOffset w = 0" and "length (batch w) < batchSizeMax"
    and "i < shardCount" and "i < length (chans w)" and "buf (chans w ! i) = []"
  shows "visit i w = w\<lparr>shardProcess := shardProcess w + 1\<rparr>"
proof -
  define w1 where "w1 = w\<lparr>shardProcess := shardProcess w + 1\<rparr>"
  have sh: "shards w1 ! ((i + shardOffset w1) mod length (shards w1)) = \<lparr>queue = Some i, pending = False\<rparr>"
    using assms by (simp add: w1_def)
  have g: "shard_get \<lparr>queue = Some i, pending = False\<rparr> w1 = (None, w1)"
    using assms by (simp add: shard_get_def w1_def)
  have f: "fill \<lparr>queue = Some i, pending = False\<rparr> w1 = w1"
    using g by (rule fill_unfold_empty)
  have "visit i w = w1"
    unfolding visit_def Let_def w1_def [symmetric] sh f
    using assms(3) by (simp add: w1_def mark_pending_def send_if_full_def)
  then show ?thesis by (simp add: w1_def)
qed

lemma drain_idle:
  assumes "shards w = map (\<lambda>i. \<lparr>queue = Some i, pending = False\<rparr>) [0..<shardCount]"
    and "shardOffset w = 0" and "length (batch w) < batchSizeMax"
    and "length (chans w) = shardCount"
    and "i \<le> k" and "k \<le> shardCount"
    and "\<forall>j. i \<le> j \<and> j < k \<longrightarrow> buf (chans w ! j) = []"
  shows "drain i w = drain k (w\<lparr>shardProcess := shardProcess w + (k - i)\<rparr>)"
  using assms
proof (induction "k - i" arbitrary: i w)
  case 0
  then show ?case by simp
next
  case (Suc n)
  then have i: "i < k" "i < shardCount" by simp_all
  have v: "visit i w = w\<lparr>shardProcess := shardProcess w + 1\<rparr>"
    using Suc.prems i by (intro visit_idle) simp_all
  have "drain i w = drain (Suc i) (visit i w)"
    using Suc.prems i by (subst drain.simps) simp
  also have "\<dots> = drain k ((visit i w)\<lparr>shardProcess := shardProcess (visit i w) + (k - Suc i)\<rparr>)"
    using Suc.prems Suc.hyps i unfolding v by (intro Suc.hyps(1)) simp_all
  also have "\<dots> = drain k (w\<lparr>shardProcess := shardProcess w + (k - i)\<rparr>)"
  proof -
    have "Suc (shardProcess w + k - Suc i) = shardProcess w + k - i" using i by arith
    then show ?thesis using i by (simp add: v)
  qed
  finally show ?case .
qed

lemma drain_done: "length (shards w) \<le> i \<Longrightarrow> drain i w = (i, w)"
  by (subst drain.simps) simp

lemma drain_one: "i < length (shards w) \<Longrightarrow> drain i w = drain (Suc i) (visit i w)"
  by (subst drain.simps) simp

lemma drain_single:
  assumes sh: "shards w = map (\<lambda>i. \<lparr>queue = Some i, pending = False\<rparr>) [0..<shardCount]"
    and off: "shardOffset w = 0" and b: "length (batch w) < batchSizeMax"
    and len: "length (chans w) = shardCount"
    and q: "q < shardCount"
    and idle: "\<forall>j. j < shardCount \<and> j \<noteq> q \<longrightarrow> buf (chans w ! j) = []"
    and v: "visit q (w\<lparr>shardProcess := shardProcess w + q\<rparr>) = v"
    and vb: "length (batch v) < batchSizeMax"
    and voff: "shardOffset v = 0"
    and vlen: "length (chans v) = shardCount"
    and vidle: "\<forall>j. j < shardCount \<and> j \<noteq> q \<longrightarrow> buf (chans v ! j) = []"
  shows "drain 0 w = (shardCount, v\<lparr>shardProcess := shardProcess v + (shardCount - Suc q)\<rparr>)"
proof -
  define w' where "w' = w\<lparr>shardProcess := shardProcess w + q\<rparr>"
  have vsh: "shards v = map (\<lambda>i. \<lparr>queue = Some i, pending = False\<rparr>) [0..<shardCount]"
    using v sh by (auto simp: shards_visit)
  have "drain 0 w = drain q w'"
    using drain_idle [OF sh off b len, of 0 q] q idle by (simp add: w'_def)
  also have "\<dots> = drain (Suc q) v"
    using drain_one [of q w'] q sh v by (simp add: w'_def)
  also have "\<dots> = drain shardCount (v\<lparr>shardProcess := shardProcess v + (shardCount - Suc q)\<rparr>)"
    using drain_idle [OF vsh voff vb vlen, of "Suc q" shardCount] q vidle by simp
  also have "\<dots> = (shardCount, v\<lparr>shardProcess := shardProcess v + (shardCount - Suc q)\<rparr>)"
    using vsh by (simp add: drain_done)
  finally show ?thesis .
qed

section \<open>Facts about reachable states\<close>

lemma run_reach:
  assumes "New reg os = Inr (reg', Inr e)" and "run evs (Run_init e) = Inr w"
  shows "stable w"
  using run_stable [OF stable_Run_init [OF assms(1)], of evs] assms(2) by auto

lemma MustRegister_fresh:
  "distinct cs \<Longrightarrow> set cs \<inter> set r = {} \<Longrightarrow> MustRegister cs r = Inr (r @ cs)"
  by (induction cs arbitrary: r) auto

lemma distinct_counterNames: "distinct counterNames"
  by (simp add: counterNames_def)

lemma wired_shard:
  "wired w \<Longrightarrow> i < shardCount \<Longrightarrow> shards w ! i = \<lparr>queue = Some i, pending = False\<rparr>"
  by (simp add: wired_def)

lemma opts_fill: "opts (fill s w) = opts w"
proof (rule fill_preserves [where P = "\<lambda>v. opts v = opts w"])
  fix s v e v'
  assume "opts v = opts w" "shard_get s v = (Some e, v')"
  then have "opts v' = opts w" by (auto elim!: shard_get_Some)
  then show "opts (add_entry e (if hash e \<in> seen v' then send v' else v')) = opts w"
    by (simp add: add_entry_def send_def)
qed simp

lemma opts_visit: "opts (visit i w) = opts w"
  by (simp add: visit_def Let_def opts_fill send_def mark_pending_def send_if_full_def)

lemma opts_drain: "opts (snd (drain i w)) = opts w"
  by (rule drain_preserves [where P = "\<lambda>v. opts v = opts w"]) (simp_all add: opts_visit)

lemma opts_wake: "wake w = Inr w' \<Longrightarrow> opts w' = opts w"
  using opts_drain [of 0 "w\<lparr>sendIterations := sendIterations w + 1\<rparr>"]
  by (auto simp: wake_def Let_def triggerNext_def split: prod.splits if_splits)

lemma opts_step: "step ev w = Inr w' \<Longrightarrow> opts w' = opts w"
proof (cases ev)
  case Wake
  then show "step ev w = Inr w' \<Longrightarrow> opts w' = opts w"
    by (auto simp: opts_wake split: if_splits dest!: opts_wake)
qed (auto simp: Exporter_enqueue_def shard_enqueue_def Let_def triggerNext_def timer_case_def
    send_def send_task_def Exporter_send_def fold_release split: if_splits option.splits prod.splits)

lemma run_opts: "run evs w = Inr w' \<Longrightarrow> opts w' = opts w"
proof (induction evs arbitrary: w)
  case Nil
  then show ?case by simp
next
  case (Cons ev evs)
  then show ?case by (auto split: sum.splits dest!: opts_step)
qed

lemma cleared_fold:
  assumes "c < length cs" and "c \<in> set cl \<or> \<not> pending (cs ! c)"
  shows "\<not> pending (fold (\<lambda>c cs. cs[c := (cs ! c)\<lparr>pending := False\<rparr>]) cl cs ! c)"
  using assms
proof (induction cl arbitrary: cs)
  case Nil
  then show ?case by simp
next
  case (Cons a cl)
  have "\<not> pending (cs[a := (cs ! a)\<lparr>pending := False\<rparr>] ! c)" if "c \<notin> set cl"
  proof (cases "a = c")
    case True
    with Cons.prems(1) show ?thesis by simp
  next
    case False
    with Cons.prems(2) that show ?thesis by simp
  qed
  then have "c \<in> set cl \<or> \<not> pending (cs[a := (cs ! a)\<lparr>pending := False\<rparr>] ! c)"
    by blast
  with Cons.prems(1) show ?case
    by (simp add: Cons.IH)
qed

section \<open>Running concrete event sequences\<close>

lemma run_append:
  "run (xs @ ys) w = (case run xs w of Inl p \<Rightarrow> Inl p | Inr w' \<Rightarrow> run ys w')"
  by (induction xs arbitrary: w) (auto split: sum.splits)

lemma step_Wake_single:
  assumes n: "nextc w"
    and sh: "shards w = map (\<lambda>i. \<lparr>queue = Some i, pending = False\<rparr>) [0..<shardCount]"
    and off: "shardOffset w = 0" and b: "length (batch w) < batchSizeMax"
    and len: "length (chans w) = shardCount"
    and q: "q < shardCount"
    and idle: "\<forall>j. j < shardCount \<and> j \<noteq> q \<longrightarrow> buf (chans w ! j) = []"
    and v: "visit q (w\<lparr>nextc := False, sendIterations := sendIterations w + 1,
                        shardProcess := shardProcess w + q\<rparr>) = v"
    and vb: "length (batch v) < batchSizeMax"
    and voff: "shardOffset v = 0"
    and vlen: "length (chans v) = shardCount"
    and vidle: "\<forall>j. j < shardCount \<and> j \<noteq> q \<longrightarrow> buf (chans v ! j) = []"
  shows "step Wake w = Inr (v\<lparr>shardProcess := shardProcess v + (shardCount - Suc q)\<rparr>)"
proof -
  define w1 where "w1 = (w\<lparr>nextc := False\<rparr>)\<lparr>sendIterations := sendIterations (w\<lparr>nextc := False\<rparr>) + 1\<rparr>"
  have v1: "visit q (w1\<lparr>shardProcess := shardProcess w1 + q\<rparr>) = v"
    using v by (simp add: w1_def)
  have d: "drain 0 w1 = (shardCount, v\<lparr>shardProcess := shardProcess v + (shardCount - Suc q)\<rparr>)"
    using sh off b len idle
    by (intro drain_single [OF _ _ _ _ q _ v1 vb voff vlen vidle]) (simp_all add: w1_def)
  have vsh: "length (shards v) = shardCount"
    using v sh by (auto simp: shards_visit)
  have "wake (w\<lparr>nextc := False\<rparr>) = Inr (v\<lparr>shardProcess := shardProcess v + (shardCount - Suc q)\<rparr>)"
    unfolding wake_def Let_def w1_def [symmetric] d
    using vsh voff by (auto simp: shardCount_def)
  with n show ?thesis by simp
qed

lemma New_opts_p: "New None opts_p = Inr (None, Inr exporter_p)"
  by (simp add: New_def init_shards_replicate opts_p_def exporter_p_def)

lemma idle_chans_nth: "j < shardCount \<Longrightarrow> buf (idle_chans ! j) = []"
  by (simp add: idle_chans_def)

lemma idle_chans_length: "length idle_chans = shardCount"
  by (simp add: idle_chans_def)

lemma run_queued3:
  "run [Enqueue 7 1, Enqueue 7 2, Enqueue 7 3, TriggerNext] (Run_init exporter_p) = Inr queued3"
  by (simp add: queued3_def pt_def idle_chans_def Run_init_def exporter_p_def Exporter_enqueue_def shard_enqueue_def 
      triggerNext_def shardCount_def shardBufferSize_def)

lemma visit_queued3:
  "visit 7 (queued3\<lparr>nextc := False, sendIterations := sendIterations queued3 + 1,
                        shardProcess := shardProcess queued3 + 7\<rparr>) =
   drained3\<lparr>shardProcess := 8, chans := idle_chans[7 := \<lparr>buf = [], cap = shardBufferSize\<rparr>]\<rparr>"
  by (simp add: queued3_def drained3_def pt_def Run_init_def exporter_p_def visit_def mark_pending_def send_if_full_def Let_def fill.simps
      shard_get_def add_entry_def send_def shardCount_def batchSizeMax_def idle_chans_length
      NewTimer_def stopTimer_def timer_Stop_def timer_Reset_def)

lemma idle_chans_7: "idle_chans[7 := \<lparr>buf = [], cap = shardBufferSize\<rparr>] = idle_chans"
proof -
  have "idle_chans ! 7 = \<lparr>buf = [], cap = shardBufferSize\<rparr>"
    by (simp add: idle_chans_def shardCount_def)
  then show ?thesis by (metis list_update_id)
qed

lemma step_Wake_queued3: "step Wake queued3 = Inr drained3"
proof -
  have "step Wake queued3 = Inr ((drained3\<lparr>shardProcess := 8, chans := idle_chans\<rparr>)
      \<lparr>shardProcess := shardProcess (drained3\<lparr>shardProcess := 8, chans := idle_chans\<rparr>) + (shardCount - Suc 7)\<rparr>)"
  proof (rule step_Wake_single [where q = 7])
    show "visit 7 (queued3\<lparr>nextc := False, sendIterations := sendIterations queued3 + 1,
                        shardProcess := shardProcess queued3 + 7\<rparr>) = drained3\<lparr>shardProcess := 8, chans := idle_chans\<rparr>"
      using visit_queued3 by (simp add: idle_chans_7)
  qed (simp_all add: queued3_def drained3_def Run_init_def exporter_p_def pt_def idle_chans_nth idle_chans_length batchSizeMax_def shardCount_def)
  then show ?thesis
    by (simp add: drained3_def shardCount_def)
qed

lemmas demo_defs = queued1_def drained1_def flushed1_def queued2_def drained2_def flushed2_def
  pt_def Run_init_def exporter_p_def

lemma run_queued1: "run [Enqueue 7 1, TriggerNext] (Run_init exporter_p) = Inr queued1"
  by (simp add: demo_defs idle_chans_def Exporter_enqueue_def shard_enqueue_def
      triggerNext_def shardCount_def shardBufferSize_def)

lemma step_Wake_queued1: "step Wake queued1 = Inr drained1"
proof -
  let ?v = "drained1\<lparr>shardProcess := 8\<rparr>"
  have "step Wake queued1 = Inr (?v\<lparr>shardProcess := shardProcess ?v + (shardCount - Suc 7)\<rparr>)"
  proof (rule step_Wake_single [where q = 7])
    have "visit 7 (queued1\<lparr>nextc := False, sendIterations := sendIterations queued1 + 1,
                        shardProcess := shardProcess queued1 + 7\<rparr>)
        = drained1\<lparr>shardProcess := 8, chans := idle_chans[7 := \<lparr>buf = [], cap = shardBufferSize\<rparr>]\<rparr>"
      by (simp add: demo_defs visit_def mark_pending_def send_if_full_def Let_def fill.simps
          shard_get_def add_entry_def send_def shardCount_def batchSizeMax_def idle_chans_length)
    then show "visit 7 (queued1\<lparr>nextc := False, sendIterations := sendIterations queued1 + 1,
                        shardProcess := shardProcess queued1 + 7\<rparr>) = ?v"
      by (simp add: idle_chans_7 drained1_def)
  qed (simp_all add: demo_defs idle_chans_nth idle_chans_length batchSizeMax_def shardCount_def)
  then show ?thesis
    by (simp add: drained1_def shardCount_def)
qed

lemma run_flush_drained1: "run [TimerExpire, TimerFlush] drained1 = Inr flushed1"
  by (simp add: demo_defs expire_def timer_case_def send_def NewTimer_def stopTimer_def
      timer_Stop_def timer_Reset_def)

lemma run_queued2: "run [Enqueue 7 2, TriggerNext] flushed1 = Inr queued2"
  by (simp add: demo_defs idle_chans_def Exporter_enqueue_def shard_enqueue_def
      triggerNext_def shardCount_def shardBufferSize_def)

lemma step_Wake_queued2: "step Wake queued2 = Inr drained2"
proof -
  let ?v = "drained2\<lparr>shardProcess := 520\<rparr>"
  have "step Wake queued2 = Inr (?v\<lparr>shardProcess := shardProcess ?v + (shardCount - Suc 7)\<rparr>)"
  proof (rule step_Wake_single [where q = 7])
    have "visit 7 (queued2\<lparr>nextc := False, sendIterations := sendIterations queued2 + 1,
                        shardProcess := shardProcess queued2 + 7\<rparr>)
        = drained2\<lparr>shardProcess := 520, chans := idle_chans[7 := \<lparr>buf = [], cap = shardBufferSize\<rparr>]\<rparr>"
      by (simp add: demo_defs visit_def mark_pending_def send_if_full_def Let_def fill.simps
          shard_get_def add_entry_def send_def shardCount_def batchSizeMax_def idle_chans_length)
    then show "visit 7 (queued2\<lparr>nextc := False, sendIterations := sendIterations queued2 + 1,
                        shardProcess := shardProcess queued2 + 7\<rparr>) = ?v"
      by (simp add: idle_chans_7 demo_defs)
  qed (simp_all add: demo_defs idle_chans_nth idle_chans_length batchSizeMax_def shardCount_def)
  then show ?thesis
    by (simp add: demo_defs shardCount_def)
qed

lemma run_flush_drained2: "run [TimerExpire, TimerFlush] drained2 = Inr flushed2"
  by (simp add: demo_defs expire_def timer_case_def send_def NewTimer_def stopTimer_def
      timer_Stop_def timer_Reset_def)

lemma run_flushed2:
  "run [Enqueue 7 1, TriggerNext, Wake, TimerExpire, TimerFlush,
        Enqueue 7 2, TriggerNext, Wake, TimerExpire, TimerFlush] (Run_init exporter_p) = Inr flushed2"
  using run_append [of "[Enqueue 7 1, TriggerNext]" "[Wake, TimerExpire, TimerFlush,
        Enqueue 7 2, TriggerNext, Wake, TimerExpire, TimerFlush]" "Run_init exporter_p"]
    run_queued1 step_Wake_queued1
    run_append [of "[TimerExpire, TimerFlush]" "[Enqueue 7 2, TriggerNext, Wake, TimerExpire, TimerFlush]" drained1]
    run_flush_drained1
    run_append [of "[Enqueue 7 2, TriggerNext]" "[Wake, TimerExpire, TimerFlush]" flushed1]
    run_queued2 step_Wake_queued2 run_flush_drained2
  by simp

section \<open>Counters of a drain pass\<close>




lemma shardProcessPending_fill: "shardProcessPending (fill s w) = shardProcessPending w"
proof (rule fill_preserves [where P = "\<lambda>v. shardProcessPending v = shardProcessPending w"])
  fix s v e v'
  assume "shardProcessPending v = shardProcessPending w" "shard_get s v = (Some e, v')"
  then have "shardProcessPending v' = shardProcessPending w" by (auto elim!: shard_get_Some)
  then show "shardProcessPending (add_entry e (if hash e \<in> seen v' then send v' else v')) = shardProcessPending w"
    by (simp add: add_entry_def send_def)
qed simp


section \<open>The batch during a drain pass\<close>

lemma length_batch_fill:
  "length (batch u) \<le> batchSizeMax \<Longrightarrow> length (batch (fill s u)) \<le> batchSizeMax"
proof (rule fill_preserves [where P = "\<lambda>v. length (batch v) \<le> batchSizeMax"])
  fix s v e v'
  assume "length (batch v) < batchSizeMax" "shard_get s v = (Some e, v')"
  then have "length (batch v') < batchSizeMax" by (auto dest: shard_get_batch)
  then show "length (batch (add_entry e (if hash e \<in> seen v' then send v' else v'))) \<le> batchSizeMax"
    by (simp add: add_entry_def send_def batchSizeMax_def)
qed

lemma length_batch_visit:
  assumes "length (batch u) < batchSizeMax"
  shows "length (batch (visit i u)) < batchSizeMax"
proof -
  have "length (batch (send_if_full (mark_pending n sh v))) < batchSizeMax"
    if "length (batch v) \<le> batchSizeMax" for n sh v
    using that by (auto simp: send_if_full_def mark_pending_def send_def batchSizeMax_def)
  then show ?thesis
    using assms by (simp add: visit_def Let_def length_batch_fill)
qed

lemma take_fresh:
  assumes "seen u = hash ` set (batch u)" "distinct (map hash (batch u))" "hash p \<notin> seen u"
  shows "seen (add_entry p u) = hash ` set (batch (add_entry p u))"
    and "distinct (map hash (batch (add_entry p u)))"
    and "batch (add_entry p u) = batch u @ [p]" and "inflight (add_entry p u) = inflight u"
  using assms by (simp_all add: add_entry_def)

lemma take_duplicate:
  shows "seen (add_entry p (send u)) = hash ` set (batch (add_entry p (send u)))"
    and "distinct (map hash (batch (add_entry p (send u))))"
    and "batch (add_entry p (send u)) = [p]"
    and "inflight (add_entry p (send u)) = inflight u @ [(batch u, closers u)]"
  by (simp_all add: add_entry_def send_def)

section \<open>The inner loop on a queue of new series, and a run of enqueues\<close>

lemma chan_buf_id: "c\<lparr>buf := buf c\<rparr> = c"
  by simp

lemma fill_fresh:
  assumes "queue s = Some q" and "q < length (chans w)"
    and "buf (chans w ! q) = es"
    and "distinct (map hash es)" and "hash ` set es \<inter> seen w = {}"
  shows "fill s w =
     w\<lparr>chans := (chans w)[q := (chans w ! q)
            \<lparr>buf := drop (min (length es) (batchSizeMax - length (batch w))) es\<rparr>],
       seen := seen w \<union> hash ` set (take (min (length es) (batchSizeMax - length (batch w))) es),
       batch := batch w @ take (min (length es) (batchSizeMax - length (batch w))) es\<rparr>"
  using assms
proof (induction es arbitrary: w)
  case Nil
  then have "shard_get s w = (None, w)" by (simp add: shard_get_def)
  then have "fill s w = w" by (rule fill_unfold_empty)
  moreover have "(chans w ! q)\<lparr>buf := []\<rparr> = chans w ! q"
    using Nil.prems(3) by (metis chan_buf_id)
  ultimately show ?case by simp
next
  case (Cons e es)
  show ?case
  proof (cases "length (batch w) < batchSizeMax")
    case False
    then have "fill s w = w" by (rule fill_unfold_stop)
    moreover have "(chans w ! q)\<lparr>buf := e # es\<rparr> = chans w ! q"
      using Cons.prems(3) by (metis chan_buf_id)
    ultimately show ?thesis using False by simp
  next
    case True
    define w' where "w' = w\<lparr>chans := (chans w)[q := (chans w ! q)\<lparr>buf := es\<rparr>]\<rparr>"
    have g: "shard_get s w = (Some e, w')"
      using Cons.prems(1,2,3) by (simp add: shard_get_def w'_def)
    have fresh: "hash e \<notin> seen w'" using Cons.prems(5) by (auto simp: w'_def)
    define v where "v = add_entry e w'"
    have "fill s w = fill s (add_entry e (if hash e \<in> seen w' then send w' else w'))"
      using True g by (rule fill_unfold_step)
    then have f: "fill s w = fill s v" using fresh by (simp add: v_def)
    have v1: "q < length (chans v)" using Cons.prems(2) by (simp add: v_def w'_def add_entry_def)
    have v2: "buf (chans v ! q) = es" using Cons.prems(2) by (simp add: v_def w'_def add_entry_def)
    have v3: "distinct (map hash es)" using Cons.prems(4) by simp
    have v4: "hash ` set es \<inter> seen v = {}"
      using Cons.prems(4,5) by (auto simp: v_def w'_def add_entry_def)
    have lb: "length (batch v) = Suc (length (batch w))" by (simp add: v_def w'_def add_entry_def)
    have m: "min (length (e # es)) (batchSizeMax - length (batch w))
        = Suc (min (length es) (batchSizeMax - length (batch v)))"
      using True lb by simp
    show ?thesis
      unfolding f Cons.IH [OF Cons.prems(1) v1 v2 v3 v4] m
      using Cons.prems(2) by (simp add: v_def w'_def add_entry_def)
  qed
qed

lemma run_enqueues:
  assumes "shards w = map (\<lambda>i. \<lparr>queue = Some i, pending = False\<rparr>) [0..<shardCount]"
    and "length (chans w) = shardCount" and "q < shardCount"
    and "cap (chans w ! q) = shardBufferSize"
    and "\<forall>k \<in> set ks. unat (h k) mod shardCount = q"
    and "length (buf (chans w ! q)) + length ks \<le> shardBufferSize"
  shows "run (map (\<lambda>k. Enqueue (h k) (p k)) ks) w =
     Inr (w\<lparr>chans := (chans w)[q := (chans w ! q)
                 \<lparr>buf := buf (chans w ! q) @ map (\<lambda>k. \<lparr>hash = h k, sample = p k\<rparr>) ks\<rparr>],
            samplesExported := samplesExported w + length ks\<rparr>)"
  using assms
proof (induction ks arbitrary: w)
  case Nil
  have "(chans w ! q)\<lparr>buf := buf (chans w ! q)\<rparr> = chans w ! q" by simp
  then show ?case by simp
next
  case (Cons k ks)
  define v where "v = w\<lparr>samplesExported := samplesExported w + 1,
      chans := (chans w)[q := (chans w ! q)\<lparr>buf := buf (chans w ! q) @ [\<lparr>hash = h k, sample = p k\<rparr>]\<rparr>]\<rparr>"
  have idx: "unat (h k mod word_of_nat (length (shards w))) = q"
    using Cons.prems(1,5) by (simp add: unat_mod shardCount_def)
  have s: "step (Enqueue (h k) (p k)) w = Inr v"
    using Cons.prems idx
    by (simp add: Exporter_enqueue_def shard_enqueue_def Let_def v_def shardCount_def)
  have "run (map (\<lambda>k. Enqueue (h k) (p k)) ks) v =
     Inr (v\<lparr>chans := (chans v)[q := (chans v ! q)
                 \<lparr>buf := buf (chans v ! q) @ map (\<lambda>k. \<lparr>hash = h k, sample = p k\<rparr>) ks\<rparr>],
            samplesExported := samplesExported v + length ks\<rparr>)"
    using Cons.prems by (intro Cons.IH) (simp_all add: v_def)
  then show ?case
    using s Cons.prems(2,3) by (simp add: v_def)
qed

section \<open>The run that fills a batch\<close>

lemma unat_hash_pt0: "k < 201 \<Longrightarrow> unat (word_of_nat (512 * k) :: 64 word) = 512 * k"
  by (rule of_nat_inverse [OF refl]) simp

lemma pt0_fun: "pt0 = (\<lambda>k. \<lparr>hash = word_of_nat (512 * k), sample = k\<rparr>)"
  by (rule ext) (simp add: pt0_def)

lemma distinct_pt0: "distinct (map hash (map pt0 [0..<201]))"
proof -
  have "inj_on (\<lambda>k. word_of_nat (512 * k) :: 64 word) {0..<201}"
  proof (rule inj_onI)
    fix j k :: nat
    assume j: "j \<in> {0..<201}" and k: "k \<in> {0..<201}"
      and eq: "(word_of_nat (512 * j) :: 64 word) = word_of_nat (512 * k)"
    from j have uj: "unat (word_of_nat (512 * j) :: 64 word) = 512 * j"
      by (intro unat_hash_pt0) simp
    from k have uk: "unat (word_of_nat (512 * k) :: 64 word) = 512 * k"
      by (intro unat_hash_pt0) simp
    from eq have "unat (word_of_nat (512 * j) :: 64 word) = unat (word_of_nat (512 * k) :: 64 word)"
      by (rule arg_cong)
    then have "512 * j = 512 * k" unfolding uj uk .
    then show "j = k" by simp
  qed
  then show ?thesis
    by (simp only: map_map distinct_map comp_def pt0_fun queueEntry.simps distinct_upt set_upt simp_thms)
qed

lemma run_queued201:
  "run (map (\<lambda>k. Enqueue (word_of_nat (512 * k)) k) [0..<201] @ [TriggerNext]) (Run_init exporter_p)
     = Inr queued201"
proof -
  have "run (map (\<lambda>k. Enqueue (word_of_nat (512 * k)) k) [0..<201]) (Run_init exporter_p) =
     Inr ((Run_init exporter_p)\<lparr>chans := (chans (Run_init exporter_p))[0 := (chans (Run_init exporter_p) ! 0)
                 \<lparr>buf := buf (chans (Run_init exporter_p) ! 0)
                    @ map (\<lambda>k. \<lparr>hash = word_of_nat (512 * k), sample = k\<rparr>) [0..<201]\<rparr>],
            samplesExported := samplesExported (Run_init exporter_p) + length [0..<201]\<rparr>)"
  proof (rule run_enqueues)
    show "\<forall>k\<in>set [0..<201]. unat (word_of_nat (512 * k) :: 64 word) mod shardCount = 0"
    proof
      fix k :: nat assume "k \<in> set [0..<201]"
      then have "unat (word_of_nat (512 * k) :: 64 word) = 512 * k"
        by (intro unat_hash_pt0) simp
      then show "unat (word_of_nat (512 * k) :: 64 word) mod shardCount = 0"
        by (simp only: shardCount_def mod_mult_self1_is_0)
    qed
  qed (simp_all add: Run_init_def exporter_p_def shardCount_def shardBufferSize_def)
  then show ?thesis
    by (simp add: run_append queued201_def Run_init_def exporter_p_def triggerNext_def
        idle_chans_def shardCount_def pt0_fun)
qed

lemma step_Wake_queued201: "step Wake queued201 = Inr capped"
proof -
  let ?w1 = "queued201\<lparr>nextc := False, sendIterations := sendIterations queued201 + 1,
                        shardProcess := shardProcess queued201 + 0\<rparr>"
  let ?sh = "\<lparr>queue = Some 0, pending = False\<rparr>"
  let ?v = "capped\<lparr>shardProcess := 1\<rparr>"
  have f: "fill ?sh (?w1\<lparr>shardProcess := shardProcess ?w1 + 1\<rparr>) =
      (?w1\<lparr>shardProcess := shardProcess ?w1 + 1\<rparr>)\<lparr>chans := idle_chans[0 := \<lparr>buf = [pt0 200], cap = shardBufferSize\<rparr>],
        seen := hash ` set (map pt0 [0..<200]), batch := map pt0 [0..<200]\<rparr>"
  proof -
    have "[200..<201] = [200::nat]" by (simp add: upt_rec)
    then show ?thesis
      using distinct_pt0
      by (subst fill_fresh [where q = 0 and es = "map pt0 [0..<201]"])
        (simp_all add: queued201_def Run_init_def exporter_p_def idle_chans_length shardCount_def
          batchSizeMax_def take_map drop_map)
  qed
  have "step Wake queued201 = Inr (?v\<lparr>shardProcess := shardProcess ?v + (shardCount - Suc 0)\<rparr>)"
  proof (rule step_Wake_single [where q = 0])
    show "visit 0 ?w1 = ?v"
      unfolding visit_def Let_def
      using f
      by (simp add: queued201_def capped_def Run_init_def exporter_p_def shardCount_def
          mark_pending_def send_if_full_def send_def batchSizeMax_def
          NewTimer_def stopTimer_def timer_Stop_def timer_Reset_def)
  qed (simp_all add: queued201_def capped_def Run_init_def exporter_p_def idle_chans_nth
      idle_chans_length batchSizeMax_def shardCount_def)
  then show ?thesis
    by (simp add: capped_def shardCount_def)
qed

section \<open>The timer during a drain pass\<close>

lemma timer_send:
  "running (timer u) \<longrightarrow> \<not> tick (timer u) \<Longrightarrow>
   timer (send u) = \<lparr>running = True, tick = False, duration = batchDelayMax\<rparr>"
  by (cases "timer u") (auto simp: send_def stopTimer_def timer_Stop_def timer_Reset_def)

lemma sent_since_send:
  assumes "sent_since w0 v"
  shows "sent_since w0 (send v)"
proof -
  from assms have ok: "running (timer v) \<longrightarrow> \<not> tick (timer v)"
    and "\<exists>xs. inflight v = inflight w0 @ xs" by (auto simp: sent_since_def)
  then obtain xs where xs: "inflight v = inflight w0 @ xs" by blast
  have t: "timer (send v) = \<lparr>running = True, tick = False, duration = batchDelayMax\<rparr>"
    using ok by (rule timer_send)
  have i: "inflight (send v) = inflight w0 @ (xs @ [(batch v, closers v)])"
    by (simp add: send_def xs)
  have "\<exists>ys. inflight (send v) = inflight w0 @ ys \<and>
      timer (send v) = (if ys = [] then timer w0
                        else \<lparr>running = True, tick = False, duration = batchDelayMax\<rparr>)"
    by (rule exI [of _ "xs @ [(batch v, closers v)]"]) (simp add: i t)
  then show ?thesis by (simp add: sent_since_def t)
qed

lemma shard_get_timer:
  "shard_get s v = (x, v') \<Longrightarrow> timer v' = timer v \<and> inflight v' = inflight v"
  by (auto simp: shard_get_def split: option.splits if_splits list.splits)

lemma sent_since_fill: "sent_since w0 v \<Longrightarrow> sent_since w0 (fill s v)"
proof (rule fill_preserves [where P = "sent_since w0"])
  fix s v e v'
  assume a: "sent_since w0 v" and g: "shard_get s v = (Some e, v')"
  from shard_get_timer [OF g] a have "sent_since w0 v'" by (simp add: sent_since_def)
  then have "sent_since w0 (if hash e \<in> seen v' then send v' else v')"
    by (simp add: sent_since_send)
  then show "sent_since w0 (add_entry e (if hash e \<in> seen v' then send v' else v'))"
    by (simp add: sent_since_def add_entry_def)
qed

lemma sent_since_visit: "sent_since w0 v \<Longrightarrow> sent_since w0 (visit i v)"
proof -
  assume a: "sent_since w0 v"
  have c: "sent_since w0 (v\<lparr>shardProcess := n\<rparr>)" for n using a by (simp add: sent_since_def)
  have p: "sent_since w0 (u\<lparr>shardProcessPending := n\<rparr>)" if "sent_since w0 u" for u n
    using that by (simp add: sent_since_def)
  have m: "sent_since w0 (mark_pending n sh u)" if "sent_since w0 u" for u n sh
    using that by (simp add: sent_since_def mark_pending_def)
  have f: "sent_since w0 (send_if_full u)" if "sent_since w0 u" for u
    using that by (simp add: send_if_full_def sent_since_send)
  show ?thesis
    unfolding visit_def Let_def
    by (intro m f p c sent_since_fill | simp only: if_split, intro conjI impI)+
qed

lemma sent_since_drain: "sent_since w0 v \<Longrightarrow> sent_since w0 (snd (drain i v))"
  by (rule drain_preserves [where P = "sent_since w0"]) (simp_all add: sent_since_visit)

lemma wake_timer:
  assumes "stable w" "nextc w"
  shows "\<exists>w' xs. step Wake w = Inr w' \<and> inflight w' = inflight w @ xs \<and>
      timer w' = (if xs = [] then timer w else \<lparr>running = True, tick = False, duration = batchDelayMax\<rparr>)"
proof -
  define w0 where "w0 = w\<lparr>nextc := False\<rparr>"
  define w1 where "w1 = w0\<lparr>sendIterations := sendIterations w0 + 1\<rparr>"
  obtain i w2 where d: "drain 0 w1 = (i, w2)" by (cases "drain 0 w1")
  have st: "stable w0" using assms(1) by (simp add: w0_def stable_def settled_counters mid_counters)
  have "sent_since w1 w1"
    using assms(1) by (simp add: sent_since_def w1_def w0_def stable_def mid_def timer_ok_def)
  then have s2: "sent_since w1 w2" using sent_since_drain [of w1 w1 0] d by simp
  from wake_stable [OF st] obtain w' where w': "wake w0 = Inr w'" by blast
  have "timer w' = timer w2 \<and> inflight w' = inflight w2"
    using w' unfolding wake_def Let_def w1_def [symmetric] d
    by (auto simp: triggerNext_def split: if_splits)
  moreover from s2 obtain xs where "inflight w2 = inflight w1 @ xs"
    "timer w2 = (if xs = [] then timer w1 else \<lparr>running = True, tick = False, duration = batchDelayMax\<rparr>)"
    by (auto simp: sent_since_def)
  moreover have "inflight w1 = inflight w" "timer w1 = timer w" by (simp_all add: w1_def w0_def)
  ultimately have "inflight w' = inflight w @ xs \<and>
      timer w' = (if xs = [] then timer w else \<lparr>running = True, tick = False, duration = batchDelayMax\<rparr>)"
    by simp
  then have "\<exists>xs. inflight w' = inflight w @ xs \<and>
      timer w' = (if xs = [] then timer w else \<lparr>running = True, tick = False, duration = batchDelayMax\<rparr>)"
    by (rule exI)
  with w' assms(2) show ?thesis by (auto simp: w0_def)
qed

section \<open>The example runs, assembled\<close>

lemma run_drained3:
  "run [Enqueue 7 1, Enqueue 7 2, Enqueue 7 3, TriggerNext, Wake] (Run_init exporter_p) = Inr drained3"
  using run_append [of "[Enqueue 7 1, Enqueue 7 2, Enqueue 7 3, TriggerNext]" "[Wake]" "Run_init exporter_p"]
    run_queued3 step_Wake_queued3
  by simp

lemma step_Complete_drained3: "step (Complete 1 None) drained3 = Inr overtaken3"
  by (simp add: overtaken3_def drained3_def Run_init_def exporter_p_def opts_p_def send_task_def
      Exporter_send_def)

lemma step_Complete_overtaken3: "step (Complete 0 None) overtaken3 = Inr delivered3"
  by (simp add: overtaken3_def delivered3_def drained3_def Run_init_def exporter_p_def opts_p_def
      send_task_def Exporter_send_def)

lemma run_overtaken3:
  "run [Enqueue 7 1, Enqueue 7 2, Enqueue 7 3, TriggerNext, Wake, Complete 1 None]
     (Run_init exporter_p) = Inr overtaken3"
  using run_append [of "[Enqueue 7 1, Enqueue 7 2, Enqueue 7 3, TriggerNext, Wake]"
      "[Complete 1 None]" "Run_init exporter_p"]
    run_drained3 step_Complete_drained3
  by simp

lemma run_delivered3:
  "run [Enqueue 7 1, Enqueue 7 2, Enqueue 7 3, TriggerNext, Wake, Complete 1 None, Complete 0 None]
     (Run_init exporter_p) = Inr delivered3"
  using run_append [of "[Enqueue 7 1, Enqueue 7 2, Enqueue 7 3, TriggerNext, Wake, Complete 1 None]"
      "[Complete 0 None]" "Run_init exporter_p"]
    run_overtaken3 step_Complete_overtaken3
  by simp

lemma run_drained1:
  "run [Enqueue 7 1, TriggerNext, Wake] (Run_init exporter_p) = Inr drained1"
  using run_append [of "[Enqueue 7 1, TriggerNext]" "[Wake]" "Run_init exporter_p"]
    run_queued1 step_Wake_queued1
  by simp

lemma run_expired1:
  "run [Enqueue 7 1, TriggerNext, Wake, TimerExpire] (Run_init exporter_p) = Inr expired1"
  using run_append [of "[Enqueue 7 1, TriggerNext, Wake]" "[TimerExpire]" "Run_init exporter_p"]
    run_drained1
  by (simp add: expired1_def drained1_def Run_init_def expire_def NewTimer_def)

lemma step_TimerFlush_expired1: "step TimerFlush expired1 = Inr flushed1"
  by (simp add: expired1_def demo_defs timer_case_def send_def NewTimer_def stopTimer_def
      timer_Stop_def timer_Reset_def)

lemma run_flushed1:
  "run [Enqueue 7 1, TriggerNext, Wake, TimerExpire, TimerFlush] (Run_init exporter_p) = Inr flushed1"
  using run_append [of "[Enqueue 7 1, TriggerNext, Wake, TimerExpire]" "[TimerFlush]" "Run_init exporter_p"]
    run_expired1 step_TimerFlush_expired1
  by simp

lemma step_Complete_flushed1:
  "step (Complete 0 (Some ''unavailable'')) flushed1 = Inr released1"
  by (simp add: released1_def demo_defs opts_p_def send_task_def Exporter_send_def release_def)

lemma run_expired0: "run [TimerExpire] (Run_init exporter_p) = Inr expired0"
  by (simp add: expired0_def Run_init_def expire_def NewTimer_def)

lemma run_full7: "run (replicate 2048 (Enqueue 7 1)) (Run_init exporter_p) = Inr full7"
proof -
  have "run (map (\<lambda>k. Enqueue 7 1) [0..<2048]) (Run_init exporter_p) =
     Inr ((Run_init exporter_p)\<lparr>chans := (chans (Run_init exporter_p))[7 := (chans (Run_init exporter_p) ! 7)
                 \<lparr>buf := buf (chans (Run_init exporter_p) ! 7)
                    @ map (\<lambda>k. \<lparr>hash = 7, sample = 1\<rparr>) [0..<2048]\<rparr>],
            samplesExported := samplesExported (Run_init exporter_p) + length [0..<2048]\<rparr>)"
    by (rule run_enqueues)
      (simp_all add: Run_init_def exporter_p_def shardCount_def shardBufferSize_def)
  then show ?thesis
    by (simp add: map_replicate_trivial full7_def Run_init_def exporter_p_def idle_chans_def
        shardCount_def pt_def)
qed

lemma run_capped:
  "run (map (\<lambda>k. Enqueue (word_of_nat (512 * k)) k) [0..<201] @ [TriggerNext, Wake])
     (Run_init exporter_p) = Inr capped"
proof -
  have "map (\<lambda>k. Enqueue (word_of_nat (512 * k)) k) [0..<201] @ [TriggerNext, Wake]
      = (map (\<lambda>k. Enqueue (word_of_nat (512 * k)) k) [0..<201] @ [TriggerNext]) @ [Wake]"
    by simp
  then show ?thesis
    using run_queued201 step_Wake_queued201 by (simp only: run_append) simp
qed

section \<open>No shard is ever skipped\<close>

lemma shardProcessPending_visit:
  assumes "wired w" "i < shardCount"
  shows "shardProcessPending (visit i w) = shardProcessPending w"
proof -
  have "\<not> pending (shards w ! ((i + shardOffset w) mod length (shards w)))"
    using assms by (simp add: wired_def)
  then show ?thesis
    by (simp add: visit_def Let_def shardProcessPending_fill mark_pending_def send_if_full_def
        send_def)
qed

lemma shardProcessPending_drain:
  assumes "mid w"
  shows "shardProcessPending (snd (drain i w)) = shardProcessPending w"
proof -
  have "mid (snd (drain i w)) \<and> shardProcessPending (snd (drain i w)) = shardProcessPending w"
  proof (rule drain_preserves [where P = "\<lambda>v. mid v \<and> shardProcessPending v = shardProcessPending w"])
    show "mid w \<and> shardProcessPending w = shardProcessPending w" using assms by simp
  next
    fix i v
    assume v: "mid v \<and> shardProcessPending v = shardProcessPending w" and i: "i < length (shards v)"
    then have "wired v" "i < shardCount" by (simp_all add: mid_def wired_def)
    then have "shardProcessPending (visit i v) = shardProcessPending v"
      by (rule shardProcessPending_visit)
    with v show "mid (visit i v) \<and> shardProcessPending (visit i v) = shardProcessPending w"
      by (simp add: mid_visit)
  qed
  then show ?thesis by simp
qed

lemma shardProcessPending_step:
  assumes "stable w" "step ev w = Inr w'"
  shows "shardProcessPending w' = shardProcessPending w"
proof (cases ev)
  case Wake
  show ?thesis
  proof (cases "nextc w")
    case False
    with Wake assms(2) show ?thesis by simp
  next
    case True
    define w1 where "w1 = (w\<lparr>nextc := False\<rparr>)\<lparr>sendIterations := sendIterations (w\<lparr>nextc := False\<rparr>) + 1\<rparr>"
    obtain i w2 where d: "drain 0 w1 = (i, w2)" by (cases "drain 0 w1")
    have "mid w1" using assms(1) by (simp add: w1_def stable_def mid_counters)
    then have "shardProcessPending w2 = shardProcessPending w1"
      using shardProcessPending_drain [of w1 0] d by simp
    moreover have "wake (w\<lparr>nextc := False\<rparr>) = Inr w'" using Wake True assms(2) by simp
    then have "shardProcessPending w' = shardProcessPending w2"
      unfolding wake_def Let_def w1_def [symmetric] d
      by (auto simp: triggerNext_def split: if_splits)
    ultimately show ?thesis by (simp add: w1_def)
  qed
qed (use assms(2) in \<open>auto simp: Exporter_enqueue_def shard_enqueue_def Let_def triggerNext_def
    timer_case_def send_def send_task_def Exporter_send_def fold_release
    split: if_splits option.splits prod.splits\<close>)

lemma shardProcessPending_run:
  assumes "stable w" "run evs w = Inr w'"
  shows "shardProcessPending w' = shardProcessPending w"
  using assms
proof (induction evs arbitrary: w)
  case Nil
  then show ?case by simp
next
  case (Cons ev evs)
  from step_stable [OF Cons.prems(1)] obtain v where v: "step ev w = Inr v" "stable v" by blast
  then have "run evs v = Inr w'" using Cons.prems(2) by simp
  from Cons.IH [OF v(2) this] shardProcessPending_step [OF Cons.prems(1) v(1)]
  show ?case by simp
qed

section \<open>The end of a drain pass, and registration\<close>




lemma MustRegister_taken:
  assumes "distinct cs" and "set cs \<inter> set r \<noteq> {}"
  shows "MustRegister cs r = Inl (AlreadyRegistered (hd (filter (\<lambda>c. c \<in> set r) cs)))"
  using assms
proof (induction cs arbitrary: r)
  case Nil
  then show ?case by simp
next
  case (Cons c cs)
  show ?case
  proof (cases "c \<in> set r")
    case True
    then show ?thesis by simp
  next
    case False
    have f: "filter (\<lambda>x. x \<in> set (r @ [c])) cs = filter (\<lambda>x. x \<in> set r) cs"
      using Cons.prems(1) by (auto intro: filter_cong)
    have "set cs \<inter> set (r @ [c]) \<noteq> {}" using Cons.prems False by auto
    with Cons.IH [of "r @ [c]"] Cons.prems(1) False f show ?thesis by simp
  qed
qed

section \<open>Properties of the export pipeline\<close>

text \<open>C1. The pending discipline does not hold of the code. A drain pass that took points
  from a shard sets \<open>pending\<close> on the loop-local copy of the shard, and the release
  closure clears that copy. In every state the process reaches, no shard of the exporter
  has \<open>pending\<close> set and the drainer has never skipped a shard; the statement that marks
  a shard leaves the exporter's shards as they are. In the run of the second theorem two
  batches with points of shard 7 are in flight together.\<close>

theorem pending_flag_stays_on_copy:
  assumes "New reg os = Inr (reg', Inr e)" and "run evs (Run_init e) = Inr w"
  shows "(\<forall>i. i < shardCount \<longrightarrow> \<not> pending (shards w ! i))
       \<and> shardProcessPending w = 0
       \<and> (\<forall>n sh u. shards (mark_pending n sh u) = shards u)"
proof -
  have st: "stable w" using run_reach [OF assms] .
  have "shardProcessPending w = shardProcessPending (Run_init e)"
    using shardProcessPending_run [OF stable_Run_init [OF assms(1)] assms(2)] .
  moreover have "\<forall>i. i < shardCount \<longrightarrow> \<not> pending (shards w ! i)"
    using st by (simp add: stable_def mid_def wired_def)
  ultimately show ?thesis
    by (simp add: Run_init_def mark_pending_def)
qed

theorem pending_flag_stays_on_copy_witness:
  "New None opts_p = Inr (None, Inr exporter_p)
   \<and> run [Enqueue 7 1, TriggerNext, Wake, TimerExpire, TimerFlush,
          Enqueue 7 2, TriggerNext, Wake, TimerExpire, TimerFlush] (Run_init exporter_p)
       = Inr flushed2
   \<and> inflight flushed2 = [([pt 1], [0]), ([pt 2], [1])]
   \<and> cells flushed2 = [\<lparr>queue = Some 7, pending = True\<rparr>, \<lparr>queue = Some 7, pending = True\<rparr>]
   \<and> shards flushed2 ! 7 = \<lparr>queue = Some 7, pending = False\<rparr>
   \<and> \<not> pending (shards flushed2 ! 7)
   \<and> shardProcessPending flushed2 = 0
   \<and> shardProcess flushed2 = 1024"
proof -
  have "(7::nat) < shardCount" by (simp add: shardCount_def)
  then show ?thesis
    using pending_flag_stays_on_copy [OF New_opts_p run_flushed2] New_opts_p run_flushed2
    by (simp add: demo_defs shardCount_def)
qed

text \<open>C2. Per-series order from \<^verbatim>\<open>Export\<close> to the backend does not hold of the code.
  Three points with hash 7 are enqueued and one drain pass runs: the first and the second
  are sent for being duplicates, each in a goroutine of its own that holds no closer, and
  both goroutines are in flight together. When the second goroutine runs before the first,
  the backend receives the second point before the first.\<close>

theorem same_series_sends_overtake:
  "New None opts_p = Inr (None, Inr exporter_p)
   \<and> run [Enqueue 7 1, Enqueue 7 2, Enqueue 7 3, TriggerNext, Wake] (Run_init exporter_p)
       = Inr drained3
   \<and> inflight drained3 = [([\<lparr>hash = 7, sample = 1\<rparr>], []), ([\<lparr>hash = 7, sample = 2\<rparr>], [])]
   \<and> run [Enqueue 7 1, Enqueue 7 2, Enqueue 7 3, TriggerNext, Wake, Complete 1 None, Complete 0 None]
        (Run_init exporter_p) = Inr delivered3
   \<and> map snd (calls delivered3) = [[\<lparr>hash = 7, sample = 2\<rparr>], [\<lparr>hash = 7, sample = 1\<rparr>]]"
  using New_opts_p run_drained3 run_delivered3
  by (simp add: drained3_def delivered3_def pt_def Run_init_def)

text \<open>C3. In every state the process reaches, \<open>seen\<close> is the set of the hashes of the
  points in the batch and no two points of the batch have the same hash; no batch handed
  to a send goroutine, and no request the backend received, holds two points with the same
  hash. One iteration of the inner loop keeps this from any state that has it: when the
  hash of the point taken from the queue is in \<open>seen\<close>, the current batch is sent (it
  goes to \<open>inflight\<close> with its closers) and the new batch is the new point alone;
  otherwise the point is appended.\<close>

theorem batch_uniqueness:
  assumes "New reg os = Inr (reg', Inr e)" and "run evs (Run_init e) = Inr w"
  shows "seen w = hash ` set (batch w) \<and> distinct (map hash (batch w))
       \<and> (\<forall>g \<in> set (inflight w). distinct (map hash (fst g)))
       \<and> (\<forall>c \<in> set (calls w). distinct (map hash (snd c)))
       \<and> (\<forall>u p. seen u = hash ` set (batch u) \<and> distinct (map hash (batch u)) \<longrightarrow>
            seen (add_entry p (if hash p \<in> seen u then send u else u))
              = hash ` set (batch (add_entry p (if hash p \<in> seen u then send u else u)))
            \<and> distinct (map hash (batch (add_entry p (if hash p \<in> seen u then send u else u))))
            \<and> (if hash p \<in> seen u
               then batch (add_entry p (if hash p \<in> seen u then send u else u)) = [p]
                  \<and> inflight (add_entry p (if hash p \<in> seen u then send u else u))
                      = inflight u @ [(batch u, closers u)]
               else batch (add_entry p (if hash p \<in> seen u then send u else u)) = batch u @ [p]
                  \<and> inflight (add_entry p (if hash p \<in> seen u then send u else u)) = inflight u))"
proof (intro conjI allI impI)
  have st: "settled w" using run_reach [OF assms] by (simp add: stable_def)
  show "seen w = hash ` set (batch w)" using st by (simp add: settled_def batch_inv_def)
  show "distinct (map hash (batch w))" using st by (simp add: settled_def batch_inv_def)
  show "\<forall>g \<in> set (inflight w). distinct (map hash (fst g))"
    using st by (simp add: settled_def batch_inv_def batch_ok_def)
  show "\<forall>c \<in> set (calls w). distinct (map hash (snd c))"
    using st by (simp add: settled_def batch_inv_def batch_ok_def)
next
  fix u :: world and p
  assume "seen u = hash ` set (batch u) \<and> distinct (map hash (batch u))"
  then have u: "seen u = hash ` set (batch u)" "distinct (map hash (batch u))" by simp_all
  let ?u' = "add_entry p (if hash p \<in> seen u then send u else u)"
  have dup: "?u' = add_entry p (send u)" if "hash p \<in> seen u" using that by simp
  have fresh: "?u' = add_entry p u" if "hash p \<notin> seen u" using that by simp
  show "seen ?u' = hash ` set (batch ?u')"
  proof (cases "hash p \<in> seen u")
    case True
    show ?thesis unfolding dup [OF True] by (rule take_duplicate)
  next
    case False
    show ?thesis unfolding fresh [OF False] using u False by (rule take_fresh)
  qed
  show "distinct (map hash (batch ?u'))"
  proof (cases "hash p \<in> seen u")
    case True
    show ?thesis unfolding dup [OF True] by (rule take_duplicate)
  next
    case False
    show ?thesis unfolding fresh [OF False] using u False by (rule take_fresh)
  qed
  show "if hash p \<in> seen u
        then batch ?u' = [p] \<and> inflight ?u' = inflight u @ [(batch u, closers u)]
        else batch ?u' = batch u @ [p] \<and> inflight ?u' = inflight u"
  proof (cases "hash p \<in> seen u")
    case True
    have "batch (add_entry p (send u)) = [p] \<and>
        inflight (add_entry p (send u)) = inflight u @ [(batch u, closers u)]"
      by (simp add: take_duplicate)
    then show ?thesis using True by (simp only: dup [OF True] if_True)
  next
    case False
    have "batch (add_entry p u) = batch u @ [p] \<and> inflight (add_entry p u) = inflight u"
      using u False by (simp add: take_fresh)
    then show ?thesis using False by (simp only: fresh [OF False] if_False)
  qed
qed

theorem batch_uniqueness_witness:
  "New None opts_p = Inr (None, Inr exporter_p)
   \<and> run [Enqueue 7 1, Enqueue 7 2, Enqueue 7 3, TriggerNext, Wake, Complete 1 None]
        (Run_init exporter_p) = Inr overtaken3
   \<and> inflight overtaken3 = [([pt 1], [])]
   \<and> calls overtaken3 = [(''projects/p'', [pt 2])]
   \<and> batch overtaken3 = [pt 3] \<and> seen overtaken3 = {7}
   \<and> seen overtaken3 = hash ` set (batch overtaken3)
   \<and> distinct (map hash (batch overtaken3))
   \<and> distinct (map hash (fst (inflight overtaken3 ! 0)))
   \<and> distinct (map hash (snd (calls overtaken3 ! 0)))
   \<and> batch (add_entry (pt 4) (send overtaken3)) = [pt 4]
   \<and> inflight (add_entry (pt 4) (send overtaken3)) = [([pt 1], []), ([pt 3], [0])]"
  using batch_uniqueness [OF New_opts_p run_overtaken3] New_opts_p run_overtaken3
  by (simp add: overtaken3_def drained3_def pt_def Run_init_def add_entry_def send_def)

text \<open>C4. \<open>batchSizeMax\<close> is 200. In every state the process reaches, between two
  events, the batch holds fewer than 200 points, and every batch in flight and every
  request the backend received holds at most 200. During a drain pass the inner loop
  never takes a batch of at most 200 points beyond 200; a batch of exactly 200 points is
  sent by the statement that ends the loop body; and after the body the batch is below 200
  again.\<close>

theorem batch_cap:
  assumes "New reg os = Inr (reg', Inr e)" and "run evs (Run_init e) = Inr w"
  shows "batchSizeMax = 200 \<and> length (batch w) < batchSizeMax
       \<and> (\<forall>g \<in> set (inflight w). length (fst g) \<le> batchSizeMax)
       \<and> (\<forall>c \<in> set (calls w). length (snd c) \<le> batchSizeMax)
       \<and> (\<forall>u s. length (batch u) \<le> batchSizeMax \<longrightarrow> length (batch (fill s u)) \<le> batchSizeMax)
       \<and> (\<forall>u. length (batch u) = batchSizeMax \<longrightarrow>
            batch (send_if_full u) = [] \<and> inflight (send_if_full u) = inflight u @ [(batch u, closers u)])
       \<and> (\<forall>u i. length (batch u) < batchSizeMax \<longrightarrow> length (batch (visit i u)) < batchSizeMax)"
proof -
  have st: "settled w" using run_reach [OF assms] by (simp add: stable_def)
  then have "length (batch w) < batchSizeMax"
    and "\<forall>g \<in> set (inflight w). length (fst g) \<le> batchSizeMax"
    and "\<forall>c \<in> set (calls w). length (snd c) \<le> batchSizeMax"
    by (auto simp: settled_def batch_inv_def batch_ok_def)
  moreover have "\<forall>u. length (batch u) = batchSizeMax \<longrightarrow>
      batch (send_if_full u) = [] \<and> inflight (send_if_full u) = inflight u @ [(batch u, closers u)]"
    by (simp add: send_if_full_def send_def)
  ultimately show ?thesis
    by (simp add: length_batch_fill length_batch_visit) (simp add: batchSizeMax_def)
qed

theorem batch_cap_witness:
  "New None opts_p = Inr (None, Inr exporter_p)
   \<and> run (map (\<lambda>k. Enqueue (word_of_nat (512 * k)) k) [0..<201] @ [TriggerNext, Wake])
        (Run_init exporter_p) = Inr capped
   \<and> length (batch capped) < 200
   \<and> inflight capped = [(map pt0 [0..<200], [0])]
   \<and> length (fst (inflight capped ! 0)) = 200
   \<and> buf (chans capped ! 0) = [pt0 200]
   \<and> batch (send_if_full (capped\<lparr>batch := map pt0 [0..<200]\<rparr>)) = []
   \<and> length (batch (visit 0 capped)) < 200"
  using batch_cap [OF New_opts_p run_capped] New_opts_p run_capped
  by (simp add: capped_def Run_init_def idle_chans_length shardCount_def)

text \<open>C5. \<open>shardCount\<close> is 512 and the exporter keeps its 512 shards. In every state the
  process reaches, \<^verbatim>\<open>Exporter.enqueue\<close> of a point with hash \<open>h\<close> does not panic and
  is \<^verbatim>\<open>shard.enqueue\<close> on the shard at index \<open>h mod 512\<close>, whose queue is channel
  \<open>h mod 512\<close>; every other shard has a channel of its own, which the call leaves as it
  is. The index depends on the hash only, so points with the same hash go to the same
  shard.\<close>

theorem shard_mapping:
  assumes "New reg os = Inr (reg', Inr e)" and "run evs (Run_init e) = Inr w"
  shows "shardCount = 512 \<and> length (shards w) = shardCount
       \<and> Exporter_enqueue h p w = Inr (shard_enqueue (shards w ! (unat h mod shardCount)) h p w)
       \<and> queue (shards w ! (unat h mod shardCount)) = Some (unat h mod shardCount)
       \<and> (\<forall>j. j < shardCount \<and> j \<noteq> unat h mod shardCount \<longrightarrow>
            queue (shards w ! j) = Some j \<and>
            chans (shard_enqueue (shards w ! (unat h mod shardCount)) h p w) ! j = chans w ! j)"
proof -
  have w: "wired w" using run_reach [OF assms] by (simp add: stable_def mid_def)
  then have len: "length (shards w) = shardCount" by (simp add: wired_def)
  have idx: "unat h mod shardCount < shardCount" by (simp add: shardCount_def)
  have s: "shards w ! (unat h mod shardCount) = \<lparr>queue = Some (unat h mod shardCount), pending = False\<rparr>"
    using w idx by (rule wired_shard)
  have "Exporter_enqueue h p w = Inr (shard_enqueue (shards w ! (unat h mod shardCount)) h p w)"
    using len by (simp add: Exporter_enqueue_def Let_def shardCount_def unat_mod)
  moreover have "\<forall>j. j < shardCount \<and> j \<noteq> unat h mod shardCount \<longrightarrow>
      queue (shards w ! j) = Some j \<and>
      chans (shard_enqueue (shards w ! (unat h mod shardCount)) h p w) ! j = chans w ! j"
    using w by (auto simp: s shard_enqueue_def Let_def wired_shard)
  ultimately show ?thesis using len s by (simp add: shardCount_def)
qed

theorem shard_mapping_witness:
  "New None opts_p = Inr (None, Inr exporter_p)
   \<and> run [Enqueue 7 1, Enqueue 7 2, Enqueue 7 3, TriggerNext] (Run_init exporter_p) = Inr queued3
   \<and> Exporter_enqueue 519 4 queued3 = Inr (shard_enqueue (shards queued3 ! 7) 519 4 queued3)
   \<and> queue (shards queued3 ! 7) = Some 7
   \<and> buf (chans (shard_enqueue (shards queued3 ! 7) 519 4 queued3) ! 7)
       = [pt 1, pt 2, pt 3, \<lparr>hash = 519, sample = 4\<rparr>]
   \<and> queue (shards queued3 ! 8) = Some 8
   \<and> chans (shard_enqueue (shards queued3 ! 7) 519 4 queued3) ! 8 = chans queued3 ! 8"
proof -
  have "unat (519 :: 64 word) mod shardCount = 7" by (simp add: shardCount_def)
  moreover have "(8::nat) < shardCount \<and> 8 \<noteq> unat (519 :: 64 word) mod shardCount"
    by (simp add: shardCount_def)
  moreover have "buf (chans (shard_enqueue (shards queued3 ! 7) 519 4 queued3) ! 7)
       = [pt 1, pt 2, pt 3, \<lparr>hash = 519, sample = 4\<rparr>]"
    by (simp add: queued3_def Run_init_def exporter_p_def shard_enqueue_def idle_chans_length
        shardCount_def shardBufferSize_def)
  ultimately show ?thesis
    using shard_mapping [OF New_opts_p run_queued3, of 519 4] New_opts_p run_queued3
    by (metis (no_types, lifting))
qed

text \<open>C6. \<open>shardBufferSize\<close> is 2048, and in every state the process reaches every
  shard's queue has this capacity and holds at most that many points.
  \<^verbatim>\<open>shard.enqueue\<close> returns a state in either case (it does not block): it adds one to
  \<open>samplesExported\<close>; when the queue holds 2048 points it adds one to
  \<open>samplesDropped\<close> and leaves every queue as it is; otherwise it leaves
  \<open>samplesDropped\<close> as it is and appends the point to the queue.\<close>

theorem enqueue_drop_iff_full:
  assumes "New reg os = Inr (reg', Inr e)" and "run evs (Run_init e) = Inr w"
    and "i < shardCount"
  shows "shardBufferSize = 2048 \<and> queue (shards w ! i) = Some i
       \<and> cap (chans w ! i) = shardBufferSize
       \<and> length (buf (chans w ! i)) \<le> shardBufferSize
       \<and> samplesExported (shard_enqueue (shards w ! i) h p w) = samplesExported w + 1
       \<and> (if length (buf (chans w ! i)) = shardBufferSize
          then samplesDropped (shard_enqueue (shards w ! i) h p w) = samplesDropped w + 1
             \<and> chans (shard_enqueue (shards w ! i) h p w) = chans w
          else samplesDropped (shard_enqueue (shards w ! i) h p w) = samplesDropped w
             \<and> chans (shard_enqueue (shards w ! i) h p w)
                 = (chans w)[i := (chans w ! i)\<lparr>buf := buf (chans w ! i) @ [\<lparr>hash = h, sample = p\<rparr>]\<rparr>])"
proof -
  have w: "wired w" using run_reach [OF assms(1,2)] by (simp add: stable_def mid_def)
  have s: "shards w ! i = \<lparr>queue = Some i, pending = False\<rparr>"
    using w assms(3) by (rule wired_shard)
  have i: "i < length (chans w)" using w assms(3) by (simp add: wired_def)
  then have "chans w ! i \<in> set (chans w)" by simp
  then have c: "cap (chans w ! i) = shardBufferSize" "length (buf (chans w ! i)) \<le> shardBufferSize"
    using w by (auto simp: wired_def)
  show ?thesis
    using c i by (auto simp: s shard_enqueue_def Let_def shardBufferSize_def)
qed

theorem enqueue_drop_iff_full_witness:
  "New None opts_p = Inr (None, Inr exporter_p)
   \<and> run (replicate 2048 (Enqueue 7 1)) (Run_init exporter_p) = Inr full7
   \<and> length (buf (chans full7 ! 7)) = 2048
   \<and> samplesExported (shard_enqueue (shards full7 ! 7) 7 1 full7) = 2049
   \<and> samplesDropped (shard_enqueue (shards full7 ! 7) 7 1 full7) = 1
   \<and> chans (shard_enqueue (shards full7 ! 7) 7 1 full7) = chans full7
   \<and> run [Enqueue 7 1, Enqueue 7 2, Enqueue 7 3, TriggerNext] (Run_init exporter_p) = Inr queued3
   \<and> samplesExported (shard_enqueue (shards queued3 ! 7) 7 4 queued3) = 4
   \<and> samplesDropped (shard_enqueue (shards queued3 ! 7) 7 4 queued3) = 0
   \<and> buf (chans (shard_enqueue (shards queued3 ! 7) 7 4 queued3) ! 7) = [pt 1, pt 2, pt 3, pt 4]"
proof -
  have i: "(7::nat) < shardCount" by (simp add: shardCount_def)
  have f: "length (buf (chans full7 ! 7)) = 2048" "samplesExported full7 = 2048"
    "samplesDropped full7 = 0"
    by (simp_all add: full7_def Run_init_def idle_chans_length shardCount_def)
  have q: "length (buf (chans queued3 ! 7)) = 3" "samplesExported queued3 = 3"
    "samplesDropped queued3 = 0" "7 < length (chans queued3)"
    "buf (chans queued3 ! 7) = [pt 1, pt 2, pt 3]"
    by (simp_all add: queued3_def Run_init_def idle_chans_length shardCount_def)
  have full: "samplesExported (shard_enqueue (shards full7 ! 7) 7 1 full7) = 2049
      \<and> samplesDropped (shard_enqueue (shards full7 ! 7) 7 1 full7) = 1
      \<and> chans (shard_enqueue (shards full7 ! 7) 7 1 full7) = chans full7"
    using enqueue_drop_iff_full [OF New_opts_p run_full7 i, of 7 1] f
    by (simp add: shardBufferSize_def)
  have room: "samplesExported (shard_enqueue (shards queued3 ! 7) 7 4 queued3) = 4
      \<and> samplesDropped (shard_enqueue (shards queued3 ! 7) 7 4 queued3) = 0
      \<and> buf (chans (shard_enqueue (shards queued3 ! 7) 7 4 queued3) ! 7) = [pt 1, pt 2, pt 3, pt 4]"
    using enqueue_drop_iff_full [OF New_opts_p run_queued3 i, of 7 4] q
    by (simp add: shardBufferSize_def pt_def)
  show ?thesis
    using New_opts_p run_full7 f(1) full run_queued3 room by (intro conjI) simp_all
qed

text \<open>C7. When a send goroutine of a reachable state runs, whatever the backend
  answers: the backend has received one more request, holding the goroutine's batch under
  the name \<^verbatim>\<open>projects/<ProjectID>\<close>; \<open>samplesSent\<close> has grown by the length of the
  batch; every variable captured by a closer of the goroutine has \<open>pending\<close> false; the
  error log has grown by the error if there was one; the goroutine is gone from
  \<open>inflight\<close>, and neither the batch under construction nor any queue has changed
  (nothing is queued again).\<close>

theorem send_accounting:
  assumes "New reg os = Inr (reg', Inr e)" and "run evs (Run_init e) = Inr w"
    and "k < length (inflight w)" and "step (Complete k err) w = Inr w'"
  shows "samplesSent w' = samplesSent w + length (fst (inflight w ! k))
       \<and> calls w' = calls w @ [(''projects/'' @ ProjectID os, fst (inflight w ! k))]
       \<and> (\<forall>c \<in> set (snd (inflight w ! k)). \<not> pending (cells w' ! c))
       \<and> errlog w' = errlog w @ (case err of None \<Rightarrow> [] | Some m \<Rightarrow> [m])
       \<and> inflight w' = take k (inflight w) @ drop (Suc k) (inflight w)
       \<and> batch w' = batch w \<and> chans w' = chans w"
proof -
  obtain b cl where g: "inflight w ! k = (b, cl)" by (cases "inflight w ! k")
  have st: "stable w" using run_reach [OF assms(1,2)] .
  have mem: "(b, cl) \<in> set (inflight w)" using assms(3) g by (metis nth_mem)
  then have valid: "\<forall>c \<in> set cl. c < length (cells w)"
    using st by (auto simp: stable_def mid_def closers_ok_def)
  have w': "w' = send_task err (b, cl) (w\<lparr>inflight := take k (inflight w) @ drop (Suc k) (inflight w)\<rparr>)"
    using assms(3,4) g by simp
  have cells: "cells w' = fold (\<lambda>c cs. cs[c := (cs ! c)\<lparr>pending := False\<rparr>]) cl (cells w)"
    by (simp add: w' send_task_def Exporter_send_def Let_def fold_release split: option.splits)
  have cl: "\<forall>c \<in> set cl. \<not> pending (cells w' ! c)"
  proof
    fix c assume c: "c \<in> set cl"
    with valid have "c < length (cells w)" by blast
    then show "\<not> pending (cells w' ! c)"
      unfolding cells using c by (intro cleared_fold) simp_all
  qed
  have o: "opts w = os"
    using run_opts [OF assms(2)] New_exporter(1) [OF assms(1)] by (simp add: Run_init_def)
  show ?thesis
    using cl o by (auto simp: g w' send_task_def Exporter_send_def Let_def fold_release split: option.splits)
qed

theorem send_accounting_witness:
  "New None opts_p = Inr (None, Inr exporter_p)
   \<and> run [Enqueue 7 1, TriggerNext, Wake, TimerExpire, TimerFlush] (Run_init exporter_p) = Inr flushed1
   \<and> inflight flushed1 = [([pt 1], [0])]
   \<and> pending (cells flushed1 ! 0)
   \<and> step (Complete 0 (Some ''unavailable'')) flushed1 = Inr released1
   \<and> samplesSent released1 = samplesSent flushed1 + 1
   \<and> calls released1 = calls flushed1 @ [(''projects/p'', [pt 1])]
   \<and> \<not> pending (cells released1 ! 0)
   \<and> errlog released1 = errlog flushed1 @ [''unavailable'']
   \<and> inflight released1 = []
   \<and> batch released1 = batch flushed1 \<and> chans released1 = chans flushed1"
proof -
  have k: "0 < length (inflight flushed1)" by (simp add: flushed1_def)
  show ?thesis
    using send_accounting [OF New_opts_p run_flushed1 k step_Complete_flushed1]
      New_opts_p run_flushed1 step_Complete_flushed1
    by (simp add: flushed1_def drained1_def opts_p_def)
qed

text \<open>C8. \<open>batchDelayMax\<close> is five seconds. \<^verbatim>\<open>send\<close>, from any state whose timer
  is not both running and expired, leaves the timer running, unexpired and armed with
  \<open>batchDelayMax\<close>, and starts a goroutine on the batch. In every state the process
  reaches: a drain pass that started no goroutine leaves the timer as it was, and one that
  started any (for a duplicate or a full batch) leaves it rearmed; when the timer channel
  is received from, the timer is rearmed with \<open>batchDelayMax\<close>, and a goroutine is
  started on the batch if and only if the batch is not empty.\<close>

theorem timer_discipline:
  assumes "New reg os = Inr (reg', Inr e)" and "run evs (Run_init e) = Inr w"
  shows "batchDelayMax = 5 * 1000000000
       \<and> (\<forall>u. (running (timer u) \<longrightarrow> \<not> tick (timer u)) \<longrightarrow>
            timer (send u) = \<lparr>running = True, tick = False, duration = batchDelayMax\<rparr>
            \<and> inflight (send u) = inflight u @ [(batch u, closers u)])
       \<and> (nextc w \<longrightarrow>
            (\<exists>w' xs. step Wake w = Inr w' \<and> inflight w' = inflight w @ xs \<and>
               timer w' = (if xs = [] then timer w
                           else \<lparr>running = True, tick = False, duration = batchDelayMax\<rparr>)))
       \<and> (tick (timer w) \<longrightarrow>
            (\<exists>w'. step TimerFlush w = Inr w' \<and>
               timer w' = \<lparr>running = True, tick = False, duration = batchDelayMax\<rparr> \<and>
               calls w' = calls w \<and>
               (if batch w = [] then inflight w' = inflight w \<and> batch w' = []
                else inflight w' = inflight w @ [(batch w, closers w)] \<and> batch w' = [])))"
proof (intro conjI allI impI)
  show "batchDelayMax = 5 * 1000000000" by (simp add: batchDelayMax_def second_def)
next
  fix u :: world assume "running (timer u) \<longrightarrow> \<not> tick (timer u)"
  then show "timer (send u) = \<lparr>running = True, tick = False, duration = batchDelayMax\<rparr>"
    by (rule timer_send)
next
  fix u :: world
  show "inflight (send u) = inflight u @ [(batch u, closers u)]" by (simp add: send_def)
next
  assume "nextc w"
  with run_reach [OF assms] show "\<exists>w' xs. step Wake w = Inr w' \<and> inflight w' = inflight w @ xs \<and>
      timer w' = (if xs = [] then timer w else \<lparr>running = True, tick = False, duration = batchDelayMax\<rparr>)"
    by (rule wake_timer)
next
  assume t: "tick (timer w)"
  have ok: "timer_ok w" using run_reach [OF assms] by (simp add: stable_def mid_def)
  define v where "v = w\<lparr>timer := (timer w)\<lparr>tick := False\<rparr>\<rparr>"
  have d: "duration (timer v) = batchDelayMax" using ok by (simp add: v_def timer_ok_def)
  have nt: "\<not> tick (timer v)" by (simp add: v_def)
  have s: "step TimerFlush w = Inr (timer_case v)" using t by (simp add: v_def)
  show "\<exists>w'. step TimerFlush w = Inr w' \<and>
      timer w' = \<lparr>running = True, tick = False, duration = batchDelayMax\<rparr> \<and>
      calls w' = calls w \<and>
      (if batch w = [] then inflight w' = inflight w \<and> batch w' = []
       else inflight w' = inflight w @ [(batch w, closers w)] \<and> batch w' = [])"
  proof (cases "batch w = []")
    case True
    then have "timer_case v = v\<lparr>timer := timer_Reset batchDelayMax (timer v)\<rparr>"
      by (simp add: timer_case_def v_def)
    moreover have "timer_Reset batchDelayMax (timer v) = \<lparr>running = True, tick = False, duration = batchDelayMax\<rparr>"
      using d nt by (cases "timer v") (simp add: timer_Reset_def)
    ultimately show ?thesis using s True by (simp add: v_def)
  next
    case False
    then have "timer_case v = send v" by (simp add: timer_case_def v_def)
    moreover have "timer (send v) = \<lparr>running = True, tick = False, duration = batchDelayMax\<rparr>"
      using nt by (intro timer_send) simp
    ultimately show ?thesis using s False by (simp add: v_def send_def)
  qed
qed

theorem timer_discipline_witness:
  "New None opts_p = Inr (None, Inr exporter_p)
   \<and> run [TimerExpire] (Run_init exporter_p) = Inr expired0
   \<and> tick (timer expired0) \<and> batch expired0 = []
   \<and> step TimerFlush expired0 = Inr (Run_init exporter_p)
   \<and> inflight (Run_init exporter_p) = inflight expired0
   \<and> timer (Run_init exporter_p) = \<lparr>running = True, tick = False, duration = 5000000000\<rparr>
   \<and> run [Enqueue 7 1, TriggerNext, Wake, TimerExpire] (Run_init exporter_p) = Inr expired1
   \<and> tick (timer expired1) \<and> batch expired1 = [pt 1]
   \<and> step TimerFlush expired1 = Inr flushed1
   \<and> inflight flushed1 = inflight expired1 @ [([pt 1], [0])]
   \<and> timer flushed1 = \<lparr>running = True, tick = False, duration = 5000000000\<rparr>
   \<and> timer (send expired1) = \<lparr>running = True, tick = False, duration = 5000000000\<rparr>
   \<and> run [Enqueue 7 1, Enqueue 7 2, Enqueue 7 3, TriggerNext] (Run_init exporter_p) = Inr queued3
   \<and> nextc queued3
   \<and> step Wake queued3 = Inr drained3
   \<and> inflight drained3 = inflight queued3 @ [([pt 1], []), ([pt 2], [])]
   \<and> timer drained3 = \<lparr>running = True, tick = False, duration = 5000000000\<rparr>"
proof -
  have e0: "step TimerFlush expired0 = Inr (Run_init exporter_p)"
    by (simp add: expired0_def Run_init_def timer_case_def timer_Reset_def NewTimer_def)
  have t1: "running (timer expired1) \<longrightarrow> \<not> tick (timer expired1)"
    by (simp add: expired1_def)
  show ?thesis
    using timer_discipline [OF New_opts_p run_expired0]
      timer_discipline [OF New_opts_p run_expired1]
      timer_discipline [OF New_opts_p run_queued3]
      New_opts_p run_expired0 run_expired1 run_queued3 e0 step_TimerFlush_expired1
      step_Wake_queued3 t1
    by (simp add: expired0_def expired1_def demo_defs queued3_def drained3_def NewTimer_def
        batchDelayMax_def second_def)
qed



text \<open>C10. \<^verbatim>\<open>New\<close> with a registry and an empty project ID. When the registry holds
  none of the six counters, \<^verbatim>\<open>New\<close> returns no exporter and the error
  \<^verbatim>\<open>GCP project ID missing\<close>, and the registry it leaves behind holds the six counters:
  they are registered before the project ID is checked. When the registry already holds
  one of them, \<^verbatim>\<open>MustRegister\<close> panics on the first such counter and \<^verbatim>\<open>New\<close> returns
  nothing. The second theorem is such a registry; the third applies the first to an empty
  registry and to that one.\<close>

theorem New_registers_before_project_check:
  assumes "ProjectID os = []"
  shows "length counterNames = 6
       \<and> New (Some r) os =
           (if set counterNames \<inter> set r = {}
            then Inr (Some (r @ counterNames), Inl ''GCP project ID missing'')
            else Inl (AlreadyRegistered (hd (filter (\<lambda>c. c \<in> set r) counterNames))))"
proof (cases "set counterNames \<inter> set r = {}")
  case True
  have "MustRegister counterNames r = Inr (r @ counterNames)"
    using True by (rule MustRegister_fresh [OF distinct_counterNames])
  then show ?thesis
    using assms True by (simp add: New_def) (simp add: counterNames_def)
next
  case False
  have "MustRegister counterNames r
      = Inl (AlreadyRegistered (hd (filter (\<lambda>c. c \<in> set r) counterNames)))"
    using False by (rule MustRegister_taken [OF distinct_counterNames])
  then show ?thesis
    using False by (simp add: New_def) (simp add: counterNames_def)
qed

theorem New_panics_on_registered_counters:
  "New (Some counterNames) \<lparr>ProjectID = [], TestEndpoint = [], CredentialsFile = []\<rparr>
     = Inl (AlreadyRegistered ''gcm_collector_samples_exported_total'')
   \<and> \<not> (\<exists>reg' err. New (Some counterNames) \<lparr>ProjectID = [], TestEndpoint = [], CredentialsFile = []\<rparr>
            = Inr (reg', Inl err))"
  by (simp add: New_def counterNames_def)

theorem New_registers_before_project_check_witness:
  "New (Some []) \<lparr>ProjectID = [], TestEndpoint = [], CredentialsFile = []\<rparr>
     = Inr (Some counterNames, Inl ''GCP project ID missing'')
   \<and> New (Some [''gcm_collector_samples_sent_total''])
         \<lparr>ProjectID = [], TestEndpoint = [], CredentialsFile = []\<rparr>
     = Inl (AlreadyRegistered ''gcm_collector_samples_sent_total'')"
  using New_registers_before_project_check
    [of "\<lparr>ProjectID = [], TestEndpoint = [], CredentialsFile = []\<rparr>" "[]"]
    New_registers_before_project_check
    [of "\<lparr>ProjectID = [], TestEndpoint = [], CredentialsFile = []\<rparr>"
      "[''gcm_collector_samples_sent_total'']"]
  by (simp add: counterNames_def)

end
